theory Spec2Isabelle
  imports Main
begin

section \<open>Data model of maze.py\<close>

text \<open>
  The only exception the modelled code can raise is Python's \<open>IndexError\<close>, from
  indexing the cell table or from \<open>random.choice\<close> on an empty list.
\<close>

datatype error = IndexError

text \<open>
  A drawn line segment \<open>(x1, y1, x2, y2)\<close>, paired with its fill colour when it is put
  on the canvas.
\<close>

type_synonym line = "int \<times> int \<times> int \<times> int"

text \<open>
  Class \<open>Cell\<close>: the bounding box, the four wall flags (default \<open>True\<close>) and the
  visited flag (default \<open>False\<close>). The \<open>win\<close> reference of a cell is the window of
  the maze that owns it; its canvas is the \<open>canvas\<close> field of the maze below.
\<close>

record cell =
  top_x :: int
  top_y :: int
  bottom_x :: int
  bottom_y :: int
  has_left_wall :: bool
  has_right_wall :: bool
  has_top_wall :: bool
  has_bottom_wall :: bool
  visited :: bool

text \<open>
  Class \<open>Maze\<close> together with the state the methods act on besides the object's own
  fields:
  \<^item> \<open>cells\<close> is \<open>self._cells\<close>, a list of rows;
  \<^item> \<open>canvas\<close> is the sequence of \<open>create_line\<close> calls received by \<open>win.canvas\<close>;
  \<^item> \<open>frames\<close> counts the calls of \<open>_animate\<close> (one redraw and one sleep each);
  \<^item> \<open>rng\<close> is the state of the module-level generator of \<open>random\<close>: the stream of
    the numbers its next draws will produce. Nothing in the source ever seeds it;
  \<^item> \<open>carved\<close> is an observation and not a field of the source: it records, in order,
    each execution of the wall-breaking block of \<open>_break_walls_r\<close> as the pair
    (current cell, chosen neighbour).
\<close>

record maze =
  x1 :: int
  y1 :: int
  num_rows :: int
  num_cols :: int
  cell_size_x :: int
  cell_size_y :: int
  seed :: "int option"
  cells :: "cell list list"
  canvas :: "(line \<times> string) list"
  frames :: nat
  rng :: "nat \<Rightarrow> nat"
  carved :: "((int \<times> int) \<times> (int \<times> int)) list"

section \<open>Python list indexing\<close>

text \<open>
  \<open>xs[i]\<close>: a negative index counts from the end, anything outside
  \<open>-len(xs) .. len(xs) - 1\<close> raises.
\<close>

definition py_index :: "nat \<Rightarrow> int \<Rightarrow> error + nat" where
  "py_index len i =
     (if 0 \<le> i \<and> i < int len then Inr (nat i)
      else if i < 0 \<and> - int len \<le> i then Inr (nat (int len + i))
      else Inl IndexError)"

definition py_get :: "'a list \<Rightarrow> int \<Rightarrow> error + 'a" where
  "py_get xs i = (case py_index (length xs) i of Inl e \<Rightarrow> Inl e | Inr k \<Rightarrow> Inr (xs ! k))"

text \<open>\<open>range(n)\<close>, empty when \<open>n \<le> 0\<close>.\<close>

definition py_range :: "int \<Rightarrow> int list" where
  "py_range n = map int [0..<nat n]"

text \<open>\<open>self._cells[i][j]\<close> as a read.\<close>

definition get_cell :: "maze \<Rightarrow> int \<Rightarrow> int \<Rightarrow> error + cell" where
  "get_cell m i j =
     (case py_get (cells m) i of Inl e \<Rightarrow> Inl e | Inr row \<Rightarrow> py_get row j)"

text \<open>
  \<open>self._cells[i][j].attr = v\<close>: the cell object is looked up, then mutated in place.
  Every cell is a separate object owned by exactly one row, so the mutation is an update
  of the table at that position.
\<close>

definition update_cell :: "maze \<Rightarrow> int \<Rightarrow> int \<Rightarrow> (cell \<Rightarrow> cell) \<Rightarrow> error + maze" where
  "update_cell m i j f =
     (case py_index (length (cells m)) i of
        Inl e \<Rightarrow> Inl e
      | Inr r \<Rightarrow>
          (case py_index (length (cells m ! r)) j of
             Inl e \<Rightarrow> Inl e
           | Inr k \<Rightarrow>
               Inr (m\<lparr>cells := (cells m)[r := (cells m ! r)[k := f (cells m ! r ! k)]]\<rparr>)))"

section \<open>Drawing\<close>

text \<open>\<open>Cell.draw\<close>: four segments, each in \<open>color\<close> or in the background colour.\<close>

definition cell_draw :: "cell \<Rightarrow> string \<Rightarrow> (line \<times> string) list" where
  "cell_draw c color =
     (let bg = ''#d9d9d9'' in
      [((top_x c, top_y c, top_x c, bottom_y c), if has_left_wall c then color else bg),
       ((bottom_x c, top_y c, bottom_x c, bottom_y c), if has_right_wall c then color else bg),
       ((top_x c, top_y c, bottom_x c, top_y c), if has_top_wall c then color else bg),
       ((top_x c, bottom_y c, bottom_x c, bottom_y c), if has_bottom_wall c then color else bg)])"

text \<open>\<open>Cell.draw_move\<close>: one segment between the two centres.\<close>

definition draw_move :: "cell \<Rightarrow> cell \<Rightarrow> bool \<Rightarrow> line \<times> string" where
  "draw_move c to_cell undo =
     (let this_x = (bottom_x c + top_x c) div 2;
          this_y = (bottom_y c + top_y c) div 2;
          other_x = (bottom_x to_cell + top_x to_cell) div 2;
          other_y = (bottom_y to_cell + top_y to_cell) div 2
      in ((this_x, this_y, other_x, other_y), if undo then ''gray'' else ''red''))"

definition animate :: "maze \<Rightarrow> maze" where
  "animate m = m\<lparr>frames := Suc (frames m)\<rparr>"

definition draw_cell :: "maze \<Rightarrow> int \<Rightarrow> int \<Rightarrow> error + maze" where
  "draw_cell m i j =
     (case get_cell m i j of
        Inl e \<Rightarrow> Inl e
      | Inr c \<Rightarrow> Inr (animate (m\<lparr>canvas := canvas m @ cell_draw c ''black''\<rparr>)))"

section \<open>Generation\<close>

definition break_entrance_and_exit :: "maze \<Rightarrow> error + maze" where
  "break_entrance_and_exit m =
     (case update_cell m 0 0 (\<lambda>c. c\<lparr>has_top_wall := False\<rparr>) of
        Inl e \<Rightarrow> Inl e
      | Inr m' \<Rightarrow>
          update_cell m' (num_rows m' - 1) (num_cols m' - 1) (\<lambda>c. c\<lparr>has_bottom_wall := False\<rparr>))"

text \<open>The \<open>for\<close> loop of \<open>_break_walls_r\<close> that collects \<open>to_visit\<close>.\<close>

fun collect_to_visit :: "maze \<Rightarrow> (int \<times> int) list \<Rightarrow> error + (int \<times> int) list" where
  "collect_to_visit m [] = Inr []"
| "collect_to_visit m ((test_i, test_j) # rest) =
     (if test_i < 0 \<or> test_j < 0 then collect_to_visit m rest
      else if test_i \<ge> num_rows m \<or> test_j \<ge> num_cols m then collect_to_visit m rest
      else
        (case get_cell m test_i test_j of
           Inl e \<Rightarrow> Inl e
         | Inr c \<Rightarrow>
             (case collect_to_visit m rest of
                Inl e \<Rightarrow> Inl e
              | Inr tv \<Rightarrow> Inr (if \<not> visited c then (test_i, test_j) # tv else tv))))"

definition neighbors :: "int \<Rightarrow> int \<Rightarrow> (int \<times> int) list" where
  "neighbors i j = [(i - 1, j), (i + 1, j), (i, j - 1), (i, j + 1)]"

text \<open>
  \<open>random.choice(seq)\<close>: raises on an empty sequence, otherwise returns the element at
  an index below \<open>len(seq)\<close> drawn from the generator, whose state advances.
\<close>

definition random_choice :: "maze \<Rightarrow> 'a list \<Rightarrow> error + ('a \<times> maze)" where
  "random_choice m xs =
     (if xs = [] then Inl IndexError
      else Inr (xs ! (rng m 0 mod length xs), m\<lparr>rng := (\<lambda>k. rng m (Suc k))\<rparr>))"

text \<open>The \<open>if\<close>/\<open>elif\<close> chain that breaks down the walls in between.\<close>

definition break_between :: "maze \<Rightarrow> int \<Rightarrow> int \<Rightarrow> int \<Rightarrow> int \<Rightarrow> error + maze" where
  "break_between m i j new_i new_j =
     (if new_j > j then
        (case update_cell m i j (\<lambda>c. c\<lparr>has_right_wall := False\<rparr>) of
           Inl e \<Rightarrow> Inl e
         | Inr m' \<Rightarrow> update_cell m' new_i new_j (\<lambda>c. c\<lparr>has_left_wall := False\<rparr>))
      else if new_j < j then
        (case update_cell m i j (\<lambda>c. c\<lparr>has_left_wall := False\<rparr>) of
           Inl e \<Rightarrow> Inl e
         | Inr m' \<Rightarrow> update_cell m' new_i new_j (\<lambda>c. c\<lparr>has_right_wall := False\<rparr>))
      else if new_i > i then
        (case update_cell m i j (\<lambda>c. c\<lparr>has_bottom_wall := False\<rparr>) of
           Inl e \<Rightarrow> Inl e
         | Inr m' \<Rightarrow> update_cell m' new_i new_j (\<lambda>c. c\<lparr>has_top_wall := False\<rparr>))
      else if new_i < i then
        (case update_cell m i j (\<lambda>c. c\<lparr>has_top_wall := False\<rparr>) of
           Inl e \<Rightarrow> Inl e
         | Inr m' \<Rightarrow> update_cell m' new_i new_j (\<lambda>c. c\<lparr>has_bottom_wall := False\<rparr>))
      else Inr m)"

text \<open>
  \<open>_break_walls_r\<close> and its \<open>while True\<close> loop. The first argument is fuel: it bounds
  the nesting of calls and loop iterations, and \<open>None\<close> means the fuel ran out before the
  call returned. \<open>Some (Inl e)\<close> is a raised exception, \<open>Some (Inr m)\<close> a normal return
  with the state \<open>m\<close>.
\<close>

fun break_walls_r :: "nat \<Rightarrow> maze \<Rightarrow> int \<Rightarrow> int \<Rightarrow> (error + maze) option"
  and break_walls_loop :: "nat \<Rightarrow> maze \<Rightarrow> int \<Rightarrow> int \<Rightarrow> (error + maze) option" where
  "break_walls_r 0 m i j = None"
| "break_walls_r (Suc n) m i j =
     (case update_cell m i j (\<lambda>c. c\<lparr>visited := True\<rparr>) of
        Inl e \<Rightarrow> Some (Inl e)
      | Inr m1 \<Rightarrow> break_walls_loop n m1 i j)"
| "break_walls_loop 0 m i j = None"
| "break_walls_loop (Suc n) m i j =
     (case collect_to_visit m (neighbors i j) of
        Inl e \<Rightarrow> Some (Inl e)
      | Inr to_visit \<Rightarrow>
          if to_visit = [] then Some (draw_cell m i j)
          else
            (case random_choice m to_visit of
               Inl e \<Rightarrow> Some (Inl e)
             | Inr ((new_i, new_j), m1) \<Rightarrow>
                 (case break_between m1 i j new_i new_j of
                    Inl e \<Rightarrow> Some (Inl e)
                  | Inr m2 \<Rightarrow>
                      (case break_walls_r n
                              (m2\<lparr>carved := carved m2 @ [((i, j), (new_i, new_j))]\<rparr>)
                              new_i new_j of
                         None \<Rightarrow> None
                       | Some (Inl e) \<Rightarrow> Some (Inl e)
                       | Some (Inr m3) \<Rightarrow> break_walls_loop n m3 i j))))"

text \<open>\<open>_reset_cells_visited\<close>: the two nested \<open>for\<close> loops.\<close>

fun reset_row :: "maze \<Rightarrow> int \<Rightarrow> int list \<Rightarrow> error + maze" where
  "reset_row m i [] = Inr m"
| "reset_row m i (j # js) =
     (case update_cell m i j (\<lambda>c. c\<lparr>visited := False\<rparr>) of
        Inl e \<Rightarrow> Inl e
      | Inr m' \<Rightarrow> reset_row m' i js)"

fun reset_rows :: "maze \<Rightarrow> int list \<Rightarrow> error + maze" where
  "reset_rows m [] = Inr m"
| "reset_rows m (i # is) =
     (case reset_row m i (py_range (num_cols m)) of
        Inl e \<Rightarrow> Inl e
      | Inr m' \<Rightarrow> reset_rows m' is)"

definition reset_cells_visited :: "maze \<Rightarrow> error + maze" where
  "reset_cells_visited m = reset_rows m (py_range (num_rows m))"

text \<open>\<open>_create_cells\<close>: build the table, then carve.\<close>

definition new_cell :: "int \<Rightarrow> int \<Rightarrow> int \<Rightarrow> int \<Rightarrow> cell" where
  "new_cell tx ty bx by =
     \<lparr>top_x = tx, top_y = ty, bottom_x = bx, bottom_y = by,
      has_left_wall = True, has_right_wall = True, has_top_wall = True,
      has_bottom_wall = True, visited = False\<rparr>"

definition build_row :: "maze \<Rightarrow> int \<Rightarrow> cell list" where
  "build_row m i =
     (let top_y = y1 m + i * cell_size_y m;
          bottom_y = y1 m + (i + 1) * cell_size_y m
      in map (\<lambda>j. new_cell (x1 m + j * cell_size_x m) top_y
                            (x1 m + (j + 1) * cell_size_x m) bottom_y)
             (py_range (num_cols m)))"

definition build_cells :: "maze \<Rightarrow> cell list list" where
  "build_cells m = map (build_row m) (py_range (num_rows m))"

definition create_cells :: "nat \<Rightarrow> maze \<Rightarrow> (error + maze) option" where
  "create_cells fuel m =
     (case break_entrance_and_exit (m\<lparr>cells := build_cells m\<rparr>) of
        Inl e \<Rightarrow> Some (Inl e)
      | Inr m1 \<Rightarrow>
          (case break_walls_r fuel m1 0 0 of
             None \<Rightarrow> None
           | Some (Inl e) \<Rightarrow> Some (Inl e)
           | Some (Inr m2) \<Rightarrow> Some (reset_cells_visited m2)))"

text \<open>
  The constructor \<open>Maze(x1, y1, num_rows, num_cols, cell_size_x, cell_size_y, win, seed)\<close>:
  the dataclass stores its arguments and \<open>__post_init__\<close> calls \<open>_create_cells\<close>.
  \<open>maze_init\<close> is the generated \<open>__init__\<close>; \<open>cv\<close> is what the window's canvas holds
  so far and \<open>r\<close> the state of the random generator at the time of the call.
\<close>

definition maze_init ::
  "int \<Rightarrow> int \<Rightarrow> int \<Rightarrow> int \<Rightarrow> int \<Rightarrow> int \<Rightarrow> (line \<times> string) list \<Rightarrow> int option
     \<Rightarrow> (nat \<Rightarrow> nat) \<Rightarrow> maze" where
  "maze_init ax ay nr nc sx sy cv sd r =
     \<lparr>x1 = ax, y1 = ay, num_rows = nr, num_cols = nc, cell_size_x = sx, cell_size_y = sy,
      seed = sd, cells = [], canvas = cv, frames = 0, rng = r, carved = []\<rparr>"

definition Maze ::
  "nat \<Rightarrow> int \<Rightarrow> int \<Rightarrow> int \<Rightarrow> int \<Rightarrow> int \<Rightarrow> int \<Rightarrow> (line \<times> string) list \<Rightarrow> int option
     \<Rightarrow> (nat \<Rightarrow> nat) \<Rightarrow> (error + maze) option" where
  "Maze fuel ax ay nr nc sx sy cv sd r =
     create_cells fuel (maze_init ax ay nr nc sx sy cv sd r)"

section \<open>Solving\<close>

text \<open>
  The \<open>for\<close> loop of \<open>solve_r\<close> over the four \<open>(test_i, test_j, wall)\<close> triples;
  \<open>rec\<close> is the recursive call \<open>self.solve_r\<close> and \<open>this_cell\<close> the current cell.
\<close>

fun solve_for ::
  "(maze \<Rightarrow> int \<Rightarrow> int \<Rightarrow> (error + bool \<times> maze) option) \<Rightarrow> maze \<Rightarrow> cell
     \<Rightarrow> (int \<times> int \<times> bool) list \<Rightarrow> (error + bool \<times> maze) option" where
  "solve_for rec m this_cell [] = Some (Inr (False, m))"
| "solve_for rec m this_cell ((test_i, test_j, wall) # rest) =
     (if test_i < 0 \<or> test_j < 0 then solve_for rec m this_cell rest
      else if test_i \<ge> num_rows m \<or> test_j \<ge> num_cols m then solve_for rec m this_cell rest
      else
        (case get_cell m test_i test_j of
           Inl e \<Rightarrow> Some (Inl e)
         | Inr next_cell \<Rightarrow>
             if \<not> visited next_cell then
               if \<not> wall then
                 (case rec (m\<lparr>canvas := canvas m @ [draw_move this_cell next_cell False]\<rparr>)
                           test_i test_j of
                    None \<Rightarrow> None
                  | Some (Inl e) \<Rightarrow> Some (Inl e)
                  | Some (Inr (found, m')) \<Rightarrow>
                      if \<not> found then
                        solve_for rec
                          (m'\<lparr>canvas := canvas m' @ [draw_move this_cell next_cell True]\<rparr>)
                          this_cell rest
                      else Some (Inr (True, m')))
               else solve_for rec m this_cell rest
             else solve_for rec m this_cell rest))"

text \<open>
  \<open>solve_r\<close>, with fuel bounding the depth of the recursion (\<open>None\<close>: fuel ran out).
\<close>

primrec solve_r :: "nat \<Rightarrow> maze \<Rightarrow> int \<Rightarrow> int \<Rightarrow> (error + bool \<times> maze) option" where
  "solve_r 0 = (\<lambda>m i j. None)"
| "solve_r (Suc n) = (\<lambda>m i j.
     (case update_cell (animate m) i j (\<lambda>c. c\<lparr>visited := True\<rparr>) of
        Inl e \<Rightarrow> Some (Inl e)
      | Inr m1 \<Rightarrow>
          (case get_cell m1 i j of
             Inl e \<Rightarrow> Some (Inl e)
           | Inr this_cell \<Rightarrow>
               if i = num_rows m1 - 1 \<and> j = num_cols m1 - 1 then Some (Inr (True, m1))
               else
                 solve_for (solve_r n) m1 this_cell
                   [(i - 1, j, has_top_wall this_cell),
                    (i + 1, j, has_bottom_wall this_cell),
                    (i, j - 1, has_left_wall this_cell),
                    (i, j + 1, has_right_wall this_cell)])))"

definition solve :: "nat \<Rightarrow> maze \<Rightarrow> (error + bool \<times> maze) option" where
  "solve fuel m = solve_r fuel m 0 0"

section \<open>Vocabulary for stating properties\<close>

text \<open>
  The cell table is rectangular and agrees with \<open>num_rows\<close> and \<open>num_cols\<close>, as it
  does after \<open>_create_cells\<close> has built it.
\<close>

definition grid_ok :: "maze \<Rightarrow> bool" where
  "grid_ok m \<longleftrightarrow> length (cells m) = nat (num_rows m) \<and>
            (\<forall>row \<in> set (cells m). length row = nat (num_cols m))"

definition in_grid :: "maze \<Rightarrow> int \<Rightarrow> int \<Rightarrow> bool" where
  "in_grid m i j \<longleftrightarrow> 0 \<le> i \<and> i < num_rows m \<and> 0 \<le> j \<and> j < num_cols m"

text \<open>The cell at an in-range position, and the table with one cell changed.\<close>

definition cell_at :: "maze \<Rightarrow> int \<Rightarrow> int \<Rightarrow> cell" where
  "cell_at m i j = cells m ! nat i ! nat j"

definition upd :: "maze \<Rightarrow> int \<Rightarrow> int \<Rightarrow> (cell \<Rightarrow> cell) \<Rightarrow> maze" where
  "upd m i j f =
     m\<lparr>cells := (cells m)[nat i := (cells m ! nat i)[nat j := f (cells m ! nat i ! nat j)]]\<rparr>"

definition unvisit :: "cell \<Rightarrow> cell" where
  "unvisit c = c\<lparr>visited := False\<rparr>"

definition all_unvisited :: "maze \<Rightarrow> maze" where
  "all_unvisited m = m\<lparr>cells := map (map (\<lambda>c. c\<lparr>visited := False\<rparr>)) (cells m)\<rparr>"

text \<open>A one-row state with the left cell visited, used as a concrete input.\<close>

definition half_visited :: maze where
  "half_visited =
     (maze_init 0 0 1 2 10 10 [] None (\<lambda>_. 0))
       \<lparr>cells := [[(new_cell 0 0 10 10)\<lparr>visited := True, has_right_wall := False\<rparr>,
                   (new_cell 10 0 20 10)\<lparr>has_left_wall := False\<rparr>]]\<rparr>"

text \<open>What one run may do to a cell: generator and solver.\<close>

definition carved_cell :: "cell \<Rightarrow> cell \<Rightarrow> bool" where
  "carved_cell c c' \<longleftrightarrow>
     top_x c' = top_x c \<and> top_y c' = top_y c \<and> bottom_x c' = bottom_x c \<and> bottom_y c' = bottom_y c \<and>
     (has_left_wall c' \<longrightarrow> has_left_wall c) \<and> (has_right_wall c' \<longrightarrow> has_right_wall c) \<and>
     (has_top_wall c' \<longrightarrow> has_top_wall c) \<and> (has_bottom_wall c' \<longrightarrow> has_bottom_wall c) \<and>
     (visited c \<longrightarrow> visited c')"

definition marked_cell :: "cell \<Rightarrow> cell \<Rightarrow> bool" where
  "marked_cell c c' \<longleftrightarrow> c' = c \<or> c' = c\<lparr>visited := True\<rparr>"

definition same_shape :: "maze \<Rightarrow> maze \<Rightarrow> bool" where
  "same_shape m m' \<longleftrightarrow>
     x1 m' = x1 m \<and> y1 m' = y1 m \<and> num_rows m' = num_rows m \<and> num_cols m' = num_cols m \<and>
     cell_size_x m' = cell_size_x m \<and> cell_size_y m' = cell_size_y m \<and> seed m' = seed m"

definition table_rel :: "(cell \<Rightarrow> cell \<Rightarrow> bool) \<Rightarrow> maze \<Rightarrow> maze \<Rightarrow> bool" where
  "table_rel R m m' \<longleftrightarrow> same_shape m m' \<and> list_all2 (list_all2 R) (cells m) (cells m')"

text \<open>
  The steps of \<open>_break_walls_r\<close> on a well-formed table, where no index is out of
  range: marking a cell, the candidate list, the neighbour picked by the generator, the
  state handed to the recursive call, and the state returned after drawing.
\<close>

definition mark :: "maze \<Rightarrow> int \<Rightarrow> int \<Rightarrow> maze" where
  "mark m i j = upd m i j (\<lambda>c. c\<lparr>visited := True\<rparr>)"

definition to_visit :: "maze \<Rightarrow> int \<Rightarrow> int \<Rightarrow> (int \<times> int) list" where
  "to_visit m i j =
     filter (\<lambda>(a, b). in_grid m a b \<and> \<not> visited (cell_at m a b)) (neighbors i j)"

definition chosen :: "maze \<Rightarrow> int \<Rightarrow> int \<Rightarrow> int \<times> int" where
  "chosen m i j = to_visit m i j ! (rng m 0 mod length (to_visit m i j))"

definition clear_toward :: "int \<Rightarrow> int \<Rightarrow> int \<Rightarrow> int \<Rightarrow> cell \<Rightarrow> cell" where
  "clear_toward i j ni nj c =
     (if nj > j then c\<lparr>has_right_wall := False\<rparr>
      else if nj < j then c\<lparr>has_left_wall := False\<rparr>
      else if ni > i then c\<lparr>has_bottom_wall := False\<rparr>
      else if ni < i then c\<lparr>has_top_wall := False\<rparr>
      else c)"

definition opened :: "maze \<Rightarrow> int \<Rightarrow> int \<Rightarrow> int \<Rightarrow> int \<Rightarrow> maze" where
  "opened m i j ni nj = upd (upd m i j (clear_toward i j ni nj)) ni nj (clear_toward ni nj i j)"

definition carve :: "maze \<Rightarrow> int \<Rightarrow> int \<Rightarrow> int \<Rightarrow> int \<Rightarrow> maze" where
  "carve m i j ni nj =
     (opened m i j ni nj)
       \<lparr>rng := (\<lambda>k. rng m (Suc k)), carved := carved m @ [((i, j), (ni, nj))]\<rparr>"

definition drawn :: "maze \<Rightarrow> int \<Rightarrow> int \<Rightarrow> maze" where
  "drawn m i j = animate (m\<lparr>canvas := canvas m @ cell_draw (cell_at m i j) ''black''\<rparr>)"

text \<open>The positions of the grid, those not yet visited, and those visited.\<close>

definition positions :: "maze \<Rightarrow> (int \<times> int) set" where
  "positions m = {0..<num_rows m} \<times> {0..<num_cols m}"

definition unvisited :: "maze \<Rightarrow> (int \<times> int) set" where
  "unvisited m = {(a, b). in_grid m a b \<and> \<not> visited (cell_at m a b)}"

definition visited_set :: "maze \<Rightarrow> (int \<times> int) set" where
  "visited_set m = {(a, b). in_grid m a b \<and> visited (cell_at m a b)}"



text \<open>
  Observations of a table: the four wall flags of each cell, in the order left, right,
  top, bottom, and the visited flags.
\<close>

definition walls :: "cell \<Rightarrow> bool \<times> bool \<times> bool \<times> bool" where
  "walls c = (has_left_wall c, has_right_wall c, has_top_wall c, has_bottom_wall c)"

definition wall_table :: "maze \<Rightarrow> (bool \<times> bool \<times> bool \<times> bool) list list" where
  "wall_table m = map (map walls) (cells m)"

definition visited_table :: "maze \<Rightarrow> bool list list" where
  "visited_table m = map (map visited) (cells m)"

text \<open>
  Two states of the random generator: one whose every draw selects the first candidate,
  one whose every draw selects the last of two candidates.
\<close>

definition always_first :: "nat \<Rightarrow> nat" where
  "always_first k = 0"

definition always_last :: "nat \<Rightarrow> nat" where
  "always_last k = 1"

text \<open>
  A one-row table whose left cell has no right wall while the right cell still has its left
  wall: a one-sided opening.
\<close>

definition one_sided :: maze where
  "one_sided =
     (maze_init 0 0 1 2 10 10 [] None always_first)
       \<lparr>cells := [[(new_cell 0 0 10 10)\<lparr>has_right_wall := False\<rparr>, new_cell 10 0 20 10]]\<rparr>"

text \<open>The carving step from \<open>(i, j)\<close> to \<open>(ni, nj)\<close> is on the wall pair between \<open>p\<close> and \<open>q\<close>.\<close>

definition joins :: "int \<Rightarrow> int \<Rightarrow> int \<Rightarrow> int \<Rightarrow> int \<times> int \<Rightarrow> int \<times> int \<Rightarrow> bool" where
  "joins i j ni nj p q \<longleftrightarrow> ((i, j) = p \<and> (ni, nj) = q) \<or> ((i, j) = q \<and> (ni, nj) = p)"

text \<open>
  The states \<open>_create_cells\<close> passes through: the freshly built table, and the table
  after \<open>_break_entrance_and_exit\<close> on a grid with at least one row and one column.
\<close>

definition fresh_table :: "maze \<Rightarrow> maze" where
  "fresh_table m = m\<lparr>cells := build_cells m\<rparr>"

definition with_openings :: "maze \<Rightarrow> maze" where
  "with_openings m =
     upd (upd (fresh_table m) 0 0 (\<lambda>c. c\<lparr>has_top_wall := False\<rparr>))
       (num_rows m - 1) (num_cols m - 1) (\<lambda>c. c\<lparr>has_bottom_wall := False\<rparr>)"



text \<open>
  The steps of \<open>solve_r\<close> on a well-formed table: the state after the pacing tick and
  the marking of the current cell, the test for the exit cell, and the wall flag of a cell
  at \<open>(i, j)\<close> on the side of its neighbour \<open>(ti, tj)\<close>, which is the flag \<open>solve_r\<close>
  pairs with that neighbour in its \<open>neighbors\<close> tuple.
\<close>

definition entered :: "maze \<Rightarrow> int \<Rightarrow> int \<Rightarrow> maze" where
  "entered m i j = mark (animate m) i j"

definition at_exit :: "maze \<Rightarrow> int \<Rightarrow> int \<Rightarrow> bool" where
  "at_exit m i j \<longleftrightarrow> i = num_rows m - 1 \<and> j = num_cols m - 1"

definition wall_toward :: "cell \<Rightarrow> int \<Rightarrow> int \<Rightarrow> int \<Rightarrow> int \<Rightarrow> bool" where
  "wall_toward c i j ti tj =
     (if ti < i then has_top_wall c else if ti > i then has_bottom_wall c
      else if tj < j then has_left_wall c else has_right_wall c)"

definition own_walls :: "cell \<Rightarrow> int \<Rightarrow> int \<Rightarrow> (int \<times> int \<times> bool) list" where
  "own_walls c i j = map (\<lambda>(ti, tj). (ti, tj, wall_toward c i j ti tj)) (neighbors i j)"

text \<open>
  The solver's moves: from an in-range cell to an in-range neighbour when the cell's own
  flag on that side is clear.
\<close>

definition can_step :: "maze \<Rightarrow> int \<times> int \<Rightarrow> int \<times> int \<Rightarrow> bool" where
  "can_step m p q \<longleftrightarrow>
     in_grid m (fst p) (snd p) \<and> in_grid m (fst q) (snd q) \<and> q \<in> set (neighbors (fst p) (snd p)) \<and>
     \<not> wall_toward (cell_at m (fst p) (snd p)) (fst p) (snd p) (fst q) (snd q)"

text \<open>
  What a failed search leaves behind: every cell it newly marked is not the exit and has
  all the cells it can step to marked.
\<close>

definition explored :: "maze \<Rightarrow> maze \<Rightarrow> bool" where
  "explored m m' \<longleftrightarrow>
     (\<forall>p \<in> visited_set m' - visited_set m.
        \<not> at_exit m (fst p) (snd p) \<and> (\<forall>q. can_step m p q \<longrightarrow> q \<in> visited_set m'))"

text \<open>
  The reverse of \<open>one_sided\<close>: the left cell keeps its right wall while the right cell has
  no left wall. And a one-row table of three cells where the left cell has no right wall,
  the middle cell has all its walls, so that the search enters the middle cell and fails.
\<close>

definition mirror_sided :: maze where
  "mirror_sided =
     (maze_init 0 0 1 2 10 10 [] None always_first)
       \<lparr>cells := [[new_cell 0 0 10 10, (new_cell 10 0 20 10)\<lparr>has_left_wall := False\<rparr>]]\<rparr>"

definition dead_end :: maze where
  "dead_end =
     (maze_init 0 0 1 3 10 10 [] None always_first)
       \<lparr>cells := [[(new_cell 0 0 10 10)\<lparr>has_right_wall := False\<rparr>, new_cell 10 0 20 10,
                   new_cell 20 0 30 10]]\<rparr>"





text \<open>All positions of the grid, row by row.\<close>

definition all_positions :: "maze \<Rightarrow> (int \<times> int) list" where
  "all_positions m = concat (map (\<lambda>a. map (Pair a) (py_range (num_cols m))) (py_range (num_rows m)))"

text \<open>
  Mirrored walls: for every cell and its right neighbour, the cell's right flag equals the
  neighbour's left flag; for every cell and the cell below, the cell's bottom flag equals
  the top flag of the cell below.
\<close>

definition mirrored :: "maze \<Rightarrow> bool" where
  "mirrored m \<longleftrightarrow>
     (\<forall>(a, b) \<in> set (all_positions m).
        (in_grid m a (b + 1) \<longrightarrow>
           has_right_wall (cell_at m a b) = has_left_wall (cell_at m a (b + 1))) \<and>
        (in_grid m (a + 1) b \<longrightarrow>
           has_bottom_wall (cell_at m a b) = has_top_wall (cell_at m (a + 1) b)))"

section \<open>Indexing a well-formed table\<close>

lemma py_index_in: "0 \<le> i \<Longrightarrow> i < int len \<Longrightarrow> py_index len i = Inr (nat i)"
  by (simp add: py_index_def)

lemma grid_ok_row: "grid_ok m \<Longrightarrow> 0 \<le> i \<Longrightarrow> i < num_rows m \<Longrightarrow> length (cells m ! nat i) = nat (num_cols m)"
proof -
  assume a: "grid_ok m" "0 \<le> i" "i < num_rows m"
  then have "nat i < length (cells m)" by (simp add: grid_ok_def)
  then have "cells m ! nat i \<in> set (cells m)" by simp
  with a show ?thesis by (simp add: grid_ok_def)
qed

lemma get_cell_ok: "grid_ok m \<Longrightarrow> in_grid m i j \<Longrightarrow> get_cell m i j = Inr (cell_at m i j)"
  using grid_ok_row [of m i]
  by (simp add: get_cell_def py_get_def py_index_in grid_ok_def in_grid_def cell_at_def)

lemma update_cell_ok: "grid_ok m \<Longrightarrow> in_grid m i j \<Longrightarrow> update_cell m i j f = Inr (upd m i j f)"
  using grid_ok_row [of m i]
  by (simp add: update_cell_def py_index_in grid_ok_def in_grid_def upd_def)

lemma grid_ok_upd: "grid_ok m \<Longrightarrow> grid_ok (upd m i j f)"
proof (cases "nat i < length (cells m)")
  case True
  assume ok: "grid_ok m"
  from True have "cells m ! nat i \<in> set (cells m)" by simp
  with ok have len: "length (cells m ! nat i) = nat (num_cols m)" by (simp add: grid_ok_def)
  show ?thesis
    unfolding grid_ok_def upd_def using ok len
    by (auto simp add: grid_ok_def dest!: set_update_subset_insert [THEN subsetD])
next
  case False
  assume ok: "grid_ok m"
  from False have "(cells m)[nat i := (cells m ! nat i)[nat j := f (cells m ! nat i ! nat j)]] = cells m"
    by (intro list_update_beyond) simp
  then have "upd m i j f = m" by (simp add: upd_def)
  with ok show ?thesis by simp
qed

lemma upd_fields [simp]:
  "num_rows (upd m i j f) = num_rows m" "num_cols (upd m i j f) = num_cols m"
  "x1 (upd m i j f) = x1 m" "y1 (upd m i j f) = y1 m"
  "cell_size_x (upd m i j f) = cell_size_x m" "cell_size_y (upd m i j f) = cell_size_y m"
  "seed (upd m i j f) = seed m" "canvas (upd m i j f) = canvas m"
  "frames (upd m i j f) = frames m" "rng (upd m i j f) = rng m"
  "carved (upd m i j f) = carved m"
  by (simp_all add: upd_def)

lemma in_grid_upd [simp]: "in_grid (upd m i j f) a b = in_grid m a b"
  by (simp add: in_grid_def)

lemma cell_at_upd:
  "grid_ok m \<Longrightarrow> in_grid m i j \<Longrightarrow> in_grid m a b \<Longrightarrow>
   cell_at (upd m i j f) a b = (if a = i \<and> b = j then f (cell_at m i j) else cell_at m a b)"
  using grid_ok_row [of m i]
  by (auto simp add: cell_at_def upd_def grid_ok_def in_grid_def nth_list_update)

section \<open>Resetting the visited flags\<close>

lemma upd_as_cells: "upd m i j f = m\<lparr>cells := cells (upd m i j f)\<rparr>"
  by (simp add: upd_def)

lemma reset_row_ok:
  "grid_ok m \<Longrightarrow> 0 \<le> i \<Longrightarrow> i < num_rows m \<Longrightarrow> \<forall>j\<in>set js. 0 \<le> j \<and> j < num_cols m \<Longrightarrow>
   \<exists>cs. reset_row m i js = Inr (m\<lparr>cells := cs\<rparr>) \<and> length cs = length (cells m) \<and>
     (\<forall>r<length cs. length (cs ! r) = length (cells m ! r) \<and>
        (\<forall>k<length (cs ! r). cs ! r ! k =
            (if r = nat i \<and> int k \<in> set js then unvisit (cells m ! r ! k) else cells m ! r ! k)))"
proof (induction js arbitrary: m)
  case Nil
  show ?case by (rule exI [of _ "cells m"]) simp
next
  case (Cons j js)
  let ?m1 = "upd m i j (\<lambda>c. c\<lparr>visited := False\<rparr>)"
  from Cons.prems have ing: "in_grid m i j" by (simp add: in_grid_def)
  have step: "update_cell m i j (\<lambda>c. c\<lparr>visited := False\<rparr>) = Inr ?m1"
    using Cons.prems(1) ing by (rule update_cell_ok)
  have ok1: "grid_ok ?m1" using Cons.prems(1) by (rule grid_ok_upd)
  from Cons.IH [OF ok1] Cons.prems
  obtain cs where cs: "reset_row ?m1 i js = Inr (?m1\<lparr>cells := cs\<rparr>)"
    "length cs = length (cells ?m1)"
    "\<forall>r<length cs. length (cs ! r) = length (cells ?m1 ! r) \<and>
        (\<forall>k<length (cs ! r). cs ! r ! k =
            (if r = nat i \<and> int k \<in> set js then unvisit (cells ?m1 ! r ! k) else cells ?m1 ! r ! k))"
    by auto
  have eq: "?m1\<lparr>cells := cs\<rparr> = m\<lparr>cells := cs\<rparr>" by (simp add: upd_def)
  have len1: "length (cells ?m1) = length (cells m)" by (simp add: upd_def)
  have row1: "length (cells ?m1 ! r) = length (cells m ! r)" if "r < length (cells m)" for r
    using that by (cases "r = nat i") (simp_all add: upd_def)
  have el1: "cells ?m1 ! r ! k =
      (if r = nat i \<and> k = nat j then unvisit (cells m ! r ! k) else cells m ! r ! k)"
    if "r < length (cells m)" "k < length (cells m ! r)" for r k
    using that by (cases "r = nat i"; cases "k = nat j") (simp_all add: upd_def unvisit_def)
  have jn: "0 \<le> j" using Cons.prems by simp
  show ?case
  proof (rule exI [of _ cs], intro conjI allI impI)
    show "reset_row m i (j # js) = Inr (m\<lparr>cells := cs\<rparr>)"
      using step cs(1) eq by simp
    show "length cs = length (cells m)" using cs(2) len1 by simp
  next
    fix r assume r: "r < length cs"
    with cs(2) len1 have r': "r < length (cells m)" by simp
    show "length (cs ! r) = length (cells m ! r)" using cs(3) r row1 [OF r'] by simp
    fix k assume k: "k < length (cs ! r)"
    with cs(3) r row1 [OF r'] have k': "k < length (cells m ! r)" by simp
    have "int k = j \<longleftrightarrow> k = nat j" using jn by auto
    then show "cs ! r ! k = (if r = nat i \<and> int k \<in> set (j # js) then unvisit (cells m ! r ! k)
           else cells m ! r ! k)"
      using cs(3) r k el1 [OF r' k'] by (auto simp add: unvisit_def)
  qed
qed

lemma grid_ok_cells_update:
  "grid_ok m \<Longrightarrow> length cs = length (cells m) \<Longrightarrow>
   \<forall>r<length cs. length (cs ! r) = length (cells m ! r) \<Longrightarrow> grid_ok (m\<lparr>cells := cs\<rparr>)"
proof -
  assume ok: "grid_ok m" and len: "length cs = length (cells m)"
    and rows: "\<forall>r<length cs. length (cs ! r) = length (cells m ! r)"
  have "length row = nat (num_cols m)" if "row \<in> set cs" for row
  proof -
    from that obtain r where r: "r < length cs" "row = cs ! r" by (auto simp add: in_set_conv_nth)
    then have "cells m ! r \<in> set (cells m)" using len by simp
    then have "length (cells m ! r) = nat (num_cols m)" using ok by (simp add: grid_ok_def)
    with r rows show ?thesis by simp
  qed
  then show ?thesis using ok len by (simp add: grid_ok_def)
qed

lemma in_py_range: "x \<in> set (py_range n) \<longleftrightarrow> 0 \<le> x \<and> x < n"
proof
  assume "x \<in> set (py_range n)"
  then show "0 \<le> x \<and> x < n" by (auto simp add: py_range_def)
next
  assume "0 \<le> x \<and> x < n"
  then have mem: "nat x \<in> {0..<nat n}" and x: "int (nat x) = x" by auto
  from mem have "int (nat x) \<in> int ` {0..<nat n}" by (rule imageI)
  then show "x \<in> set (py_range n)" using x by (simp add: py_range_def)
qed

lemma reset_rows_ok:
  "grid_ok m \<Longrightarrow> \<forall>i\<in>set rows. 0 \<le> i \<and> i < num_rows m \<Longrightarrow>
   \<exists>cs. reset_rows m rows = Inr (m\<lparr>cells := cs\<rparr>) \<and> length cs = length (cells m) \<and>
     (\<forall>r<length cs. length (cs ! r) = length (cells m ! r) \<and>
        (\<forall>k<length (cs ! r). cs ! r ! k =
            (if int r \<in> set rows then unvisit (cells m ! r ! k) else cells m ! r ! k)))"
proof (induction rows arbitrary: m)
  case Nil
  show ?case by (rule exI [of _ "cells m"]) simp
next
  case (Cons i rows)
  from Cons.prems have i: "0 \<le> i" "i < num_rows m" by simp_all
  have cols: "\<forall>j\<in>set (py_range (num_cols m)). 0 \<le> j \<and> j < num_cols m"
    by (simp add: in_py_range)
  from reset_row_ok [OF Cons.prems(1) i cols]
  obtain c1 where c1: "reset_row m i (py_range (num_cols m)) = Inr (m\<lparr>cells := c1\<rparr>)"
    "length c1 = length (cells m)"
    "\<forall>r<length c1. length (c1 ! r) = length (cells m ! r) \<and>
        (\<forall>k<length (c1 ! r). c1 ! r ! k =
            (if r = nat i \<and> int k \<in> set (py_range (num_cols m)) then unvisit (cells m ! r ! k)
             else cells m ! r ! k))"
    by blast
  let ?m1 = "m\<lparr>cells := c1\<rparr>"
  have ok1: "grid_ok ?m1" using Cons.prems(1) c1(2,3) by (intro grid_ok_cells_update) simp_all
  have rows1: "\<forall>i\<in>set rows. 0 \<le> i \<and> i < num_rows ?m1" using Cons.prems(2) by simp
  from Cons.IH [OF ok1 rows1]
  obtain cs where cs: "reset_rows ?m1 rows = Inr (?m1\<lparr>cells := cs\<rparr>)"
    "length cs = length (cells ?m1)"
    "\<forall>r<length cs. length (cs ! r) = length (cells ?m1 ! r) \<and>
        (\<forall>k<length (cs ! r). cs ! r ! k =
            (if int r \<in> set rows then unvisit (cells ?m1 ! r ! k) else cells ?m1 ! r ! k))"
    by blast
  show ?case
  proof (rule exI [of _ cs], intro conjI allI impI)
    show "reset_rows m (i # rows) = Inr (m\<lparr>cells := cs\<rparr>)"
      using c1(1) cs(1) by simp
    show "length cs = length (cells m)" using cs(2) c1(2) by simp
  next
    fix r assume r: "r < length cs"
    then have r1: "r < length c1" using cs(2) by simp
    show lr: "length (cs ! r) = length (cells m ! r)" using cs(3) c1(3) r r1 by simp
    fix k assume k: "k < length (cs ! r)"
    then have k1: "k < length (c1 ! r)" using cs(3) r by simp
    have rn: "r < nat (num_rows m)" using r1 c1(2) Cons.prems(1) by (simp add: grid_ok_def)
    have "cells m ! r \<in> set (cells m)" using r1 c1(2) by simp
    then have "length (cells m ! r) = nat (num_cols m)"
      using Cons.prems(1) by (simp add: grid_ok_def)
    then have kin: "int k \<in> set (py_range (num_cols m))"
      using k lr by (simp add: in_py_range) 
    have ri: "int r = i \<longleftrightarrow> r = nat i" using i by auto
    have a: "cs ! r ! k = (if int r \<in> set rows then unvisit (c1 ! r ! k) else c1 ! r ! k)"
      using cs(3) r k by simp
    have b: "c1 ! r ! k = (if r = nat i then unvisit (cells m ! r ! k) else cells m ! r ! k)"
      using c1(3) r1 k1 kin by simp
    show "cs ! r ! k = (if int r \<in> set (i # rows) then unvisit (cells m ! r ! k)
           else cells m ! r ! k)"
      using a b ri by (auto simp add: unvisit_def)
  qed
qed

lemma reset_cells_visited_ok:
  assumes ok: "grid_ok m"
  shows "reset_cells_visited m = Inr (all_unvisited m)"
proof -
  have rows: "\<forall>i\<in>set (py_range (num_rows m)). 0 \<le> i \<and> i < num_rows m"
    by (simp add: in_py_range)
  from reset_rows_ok [OF ok rows]
  obtain cs where cs: "reset_rows m (py_range (num_rows m)) = Inr (m\<lparr>cells := cs\<rparr>)"
    "length cs = length (cells m)"
    "\<forall>r<length cs. length (cs ! r) = length (cells m ! r) \<and>
        (\<forall>k<length (cs ! r). cs ! r ! k =
            (if int r \<in> set (py_range (num_rows m)) then unvisit (cells m ! r ! k)
             else cells m ! r ! k))"
    by blast
  have "cs = map (map (\<lambda>c. c\<lparr>visited := False\<rparr>)) (cells m)"
  proof (rule nth_equalityI)
    show "length cs = length (map (map (\<lambda>c. c\<lparr>visited := False\<rparr>)) (cells m))"
      using cs(2) by simp
  next
    fix r assume r: "r < length cs"
    then have rin: "int r \<in> set (py_range (num_rows m))"
      using cs(2) ok by (simp add: in_py_range grid_ok_def)
    have "cs ! r = map (\<lambda>c. c\<lparr>visited := False\<rparr>) (cells m ! r)"
    proof (rule nth_equalityI)
      show "length (cs ! r) = length (map (\<lambda>c. c\<lparr>visited := False\<rparr>) (cells m ! r))"
        using cs(3) r by simp
    next
      fix k assume "k < length (cs ! r)"
      then show "cs ! r ! k = map (\<lambda>c. c\<lparr>visited := False\<rparr>) (cells m ! r) ! k"
        using cs(3) r rin by (simp add: unvisit_def)
    qed
    then show "cs ! r = map (map (\<lambda>c. c\<lparr>visited := False\<rparr>)) (cells m) ! r"
      using r cs(2) by simp
  qed
  then show ?thesis using cs(1) by (simp add: reset_cells_visited_def all_unvisited_def)
qed

lemma all_unvisited_cells:
  "\<forall>row\<in>set (cells (all_unvisited m)). \<forall>c\<in>set row. \<not> visited c"
  by (auto simp add: all_unvisited_def)

lemma all_unvisited_idem: "all_unvisited (all_unvisited m) = all_unvisited m"
  by (simp add: all_unvisited_def comp_def)

lemma grid_ok_all_unvisited: "grid_ok m \<Longrightarrow> grid_ok (all_unvisited m)"
  by (auto simp add: grid_ok_def all_unvisited_def)

text \<open>
  C8. On any rectangular table, \<open>_reset_cells_visited\<close> returns normally; afterwards every
  cell's visited flag is false whatever it was before, a second call changes nothing, and
  the new state is the old one with only the visited flags replaced: no other field of a
  cell or of the maze is touched.
\<close>

theorem reset_cells_visited_post:
  assumes "grid_ok m"
  shows "\<exists>m'. reset_cells_visited m = Inr m' \<and>
           (\<forall>row\<in>set (cells m'). \<forall>c\<in>set row. \<not> visited c) \<and>
           reset_cells_visited m' = Inr m' \<and>
           m' = m\<lparr>cells := map (map (\<lambda>c. c\<lparr>visited := False\<rparr>)) (cells m)\<rparr>"
proof (intro exI conjI)
  show "reset_cells_visited m = Inr (all_unvisited m)"
    using assms by (rule reset_cells_visited_ok)
  show "\<forall>row\<in>set (cells (all_unvisited m)). \<forall>c\<in>set row. \<not> visited c"
    by (rule all_unvisited_cells)
  show "reset_cells_visited (all_unvisited m) = Inr (all_unvisited m)"
    using reset_cells_visited_ok [OF grid_ok_all_unvisited [OF assms]]
    by (simp add: all_unvisited_idem)
  show "all_unvisited m = m\<lparr>cells := map (map (\<lambda>c. c\<lparr>visited := False\<rparr>)) (cells m)\<rparr>"
    by (simp add: all_unvisited_def)
qed

theorem reset_cells_visited_post_witness:
  "grid_ok half_visited \<and>
   (\<exists>m'. reset_cells_visited half_visited = Inr m' \<and>
           (\<forall>row\<in>set (cells m'). \<forall>c\<in>set row. \<not> visited c) \<and>
           reset_cells_visited m' = Inr m' \<and>
           m' = half_visited\<lparr>cells := map (map (\<lambda>c. c\<lparr>visited := False\<rparr>)) (cells half_visited)\<rparr>)"
proof -
  have ok: "grid_ok half_visited"
    by (simp add: grid_ok_def half_visited_def maze_init_def)
  show ?thesis using ok reset_cells_visited_post [OF ok] by simp
qed

lemma table_rel_refl: "(\<And>c. R c c) \<Longrightarrow> table_rel R m m"
  by (simp add: table_rel_def same_shape_def list.rel_refl)

lemma table_rel_trans:
  assumes tr: "\<And>a b c. R a b \<Longrightarrow> R b c \<Longrightarrow> R a c"
    and a: "table_rel R m m'" and b: "table_rel R m' m''"
  shows "table_rel R m m''"
proof -
  have rows: "list_all2 R xs zs" if "list_all2 R xs ys" "list_all2 R ys zs" for xs ys zs
    using that by (rule list_all2_trans [rotated]) (rule tr)
  from a have a': "list_all2 (list_all2 R) (cells m) (cells m')" by (simp add: table_rel_def)
  from b have b': "list_all2 (list_all2 R) (cells m') (cells m'')" by (simp add: table_rel_def)
  from a' b' have "list_all2 (list_all2 R) (cells m) (cells m'')"
    by (rule list_all2_trans [rotated]) (rule rows)
  then show ?thesis using a b by (simp add: table_rel_def same_shape_def)
qed

lemma update_cell_rel:
  assumes refl: "\<And>c. R c c" and f: "\<And>c. R c (f c)"
    and u: "update_cell m i j f = Inr m'"
  shows "table_rel R m m' \<and> m' = m\<lparr>cells := cells m'\<rparr>"
proof -
  from u obtain r k where m': "m' = m\<lparr>cells := (cells m)[r := (cells m ! r)[k := f (cells m ! r ! k)]]\<rparr>"
    by (auto simp add: update_cell_def split: sum.splits)
  let ?row = "cells m ! r"
  have "list_all2 R ?row ?row" using refl by (simp add: list.rel_refl)
  then have "list_all2 R (?row[k := ?row ! k]) (?row[k := f (?row ! k)])"
    using f by (rule list_all2_update_cong)
  then have row: "list_all2 R ?row (?row[k := f (?row ! k)])" by simp
  have "list_all2 (list_all2 R) (cells m) (cells m)"
    using refl by (simp add: list.rel_refl)
  then have "list_all2 (list_all2 R) ((cells m)[r := ?row]) ((cells m)[r := ?row[k := f (?row ! k)]])"
    using row by (rule list_all2_update_cong)
  then have "list_all2 (list_all2 R) (cells m) ((cells m)[r := ?row[k := f (?row ! k)]])" by simp
  then show ?thesis using m' by (simp add: table_rel_def same_shape_def)
qed

lemma carved_cell_refl: "carved_cell c c"
  by (simp add: carved_cell_def)

lemma carved_cell_trans: "carved_cell a b \<Longrightarrow> carved_cell b c \<Longrightarrow> carved_cell a c"
  by (simp add: carved_cell_def)

lemma marked_cell_refl: "marked_cell c c"
  by (simp add: marked_cell_def)

lemma marked_cell_trans: "marked_cell a b \<Longrightarrow> marked_cell b c \<Longrightarrow> marked_cell a c"
  unfolding marked_cell_def by (elim disjE) simp_all

lemma marked_cell_carved: "marked_cell a b \<Longrightarrow> carved_cell a b"
  by (auto simp add: marked_cell_def carved_cell_def)

lemma table_rel_fields:
  "table_rel R (m\<lparr>canvas := cv\<rparr>) m' = table_rel R m m'"
  "table_rel R (m\<lparr>frames := fr\<rparr>) m' = table_rel R m m'"
  "table_rel R (m\<lparr>rng := rg\<rparr>) m' = table_rel R m m'"
  "table_rel R (m\<lparr>carved := cd\<rparr>) m' = table_rel R m m'"
  "table_rel R m (m'\<lparr>canvas := cv\<rparr>) = table_rel R m m'"
  "table_rel R m (m'\<lparr>frames := fr\<rparr>) = table_rel R m m'"
  "table_rel R m (m'\<lparr>rng := rg\<rparr>) = table_rel R m m'"
  "table_rel R m (m'\<lparr>carved := cd\<rparr>) = table_rel R m m'"
  by (simp_all add: table_rel_def same_shape_def)


lemma carved_rel_trans:
  "table_rel carved_cell m m' \<Longrightarrow> table_rel carved_cell m' m'' \<Longrightarrow> table_rel carved_cell m m''"
  by (erule (1) table_rel_trans [rotated]) (erule (1) carved_cell_trans)

lemma marked_rel_trans:
  "table_rel marked_cell m m' \<Longrightarrow> table_rel marked_cell m' m'' \<Longrightarrow> table_rel marked_cell m m''"
  by (erule (1) table_rel_trans [rotated]) (erule (1) marked_cell_trans)

lemma update_cell_carved:
  "update_cell m i j f = Inr m' \<Longrightarrow> (\<And>c. carved_cell c (f c)) \<Longrightarrow> table_rel carved_cell m m'"
  using update_cell_rel [of carved_cell f m i j m'] carved_cell_refl by simp

lemma update_cell_twice_carved:
  assumes "(case update_cell m i j f of Inl e \<Rightarrow> Inl e | Inr ma \<Rightarrow> update_cell ma ni nj g) = Inr m'"
    and f: "\<And>c. carved_cell c (f c)" and g: "\<And>c. carved_cell c (g c)"
  shows "table_rel carved_cell m m'"
proof (cases "update_cell m i j f")
  case (Inl e)
  with assms(1) show ?thesis by simp
next
  case (Inr ma)
  with assms(1) have "update_cell ma ni nj g = Inr m'" by simp
  then have b: "table_rel carved_cell ma m'" using g by (rule update_cell_carved)
  have a: "table_rel carved_cell m ma" using Inr f by (rule update_cell_carved)
  from a b show ?thesis by (rule carved_rel_trans)
qed

lemma break_between_rel:
  assumes "break_between m i j ni nj = Inr m'"
  shows "table_rel carved_cell m m'"
proof -
  consider "nj > j" | "\<not> nj > j" "nj < j" | "\<not> nj > j" "\<not> nj < j" "ni > i"
    | "\<not> nj > j" "\<not> nj < j" "\<not> ni > i" "ni < i"
    | "\<not> nj > j" "\<not> nj < j" "\<not> ni > i" "\<not> ni < i"
    by blast
  then show ?thesis
  proof cases
    case 1
    with assms have "(case update_cell m i j (\<lambda>c. c\<lparr>has_right_wall := False\<rparr>) of Inl e \<Rightarrow> Inl e
        | Inr ma \<Rightarrow> update_cell ma ni nj (\<lambda>c. c\<lparr>has_left_wall := False\<rparr>)) = Inr m'"
      by (simp add: break_between_def)
    then show ?thesis by (rule update_cell_twice_carved) (simp_all add: carved_cell_def)
  next
    case 2
    with assms have "(case update_cell m i j (\<lambda>c. c\<lparr>has_left_wall := False\<rparr>) of Inl e \<Rightarrow> Inl e
        | Inr ma \<Rightarrow> update_cell ma ni nj (\<lambda>c. c\<lparr>has_right_wall := False\<rparr>)) = Inr m'"
      by (simp add: break_between_def)
    then show ?thesis by (rule update_cell_twice_carved) (simp_all add: carved_cell_def)
  next
    case 3
    with assms have "(case update_cell m i j (\<lambda>c. c\<lparr>has_bottom_wall := False\<rparr>) of Inl e \<Rightarrow> Inl e
        | Inr ma \<Rightarrow> update_cell ma ni nj (\<lambda>c. c\<lparr>has_top_wall := False\<rparr>)) = Inr m'"
      by (simp add: break_between_def)
    then show ?thesis by (rule update_cell_twice_carved) (simp_all add: carved_cell_def)
  next
    case 4
    with assms have "(case update_cell m i j (\<lambda>c. c\<lparr>has_top_wall := False\<rparr>) of Inl e \<Rightarrow> Inl e
        | Inr ma \<Rightarrow> update_cell ma ni nj (\<lambda>c. c\<lparr>has_bottom_wall := False\<rparr>)) = Inr m'"
      by (simp add: break_between_def)
    then show ?thesis by (rule update_cell_twice_carved) (simp_all add: carved_cell_def)
  next
    case 5
    with assms have "m' = m" by (simp add: break_between_def)
    then show ?thesis using table_rel_refl [of carved_cell m, OF carved_cell_refl] by simp
  qed
qed

lemma draw_cell_rel: "draw_cell m i j = Inr m' \<Longrightarrow> table_rel marked_cell m m'"
  using table_rel_refl [of marked_cell m, OF marked_cell_refl]
  by (auto simp add: draw_cell_def animate_def table_rel_fields split: sum.splits)

lemma table_rel_mono:
  assumes sub: "\<And>a b. R a b \<Longrightarrow> S a b" and r: "table_rel R m m'"
  shows "table_rel S m m'"
proof -
  have rows: "list_all2 S xs ys" if "list_all2 R xs ys" for xs ys
    using that by (rule list_all2_mono) (rule sub)
  from r have "list_all2 (list_all2 R) (cells m) (cells m')" by (simp add: table_rel_def)
  then have "list_all2 (list_all2 S) (cells m) (cells m')"
    by (rule list_all2_mono) (rule rows)
  then show ?thesis using r by (simp add: table_rel_def)
qed

lemma collect_to_visit_ok:
  "grid_ok m \<Longrightarrow>
   collect_to_visit m ns = Inr (filter (\<lambda>(a, b). in_grid m a b \<and> \<not> visited (cell_at m a b)) ns)"
proof (induction ns)
  case Nil
  show ?case by simp
next
  case (Cons p ns)
  obtain a b where p: "p = (a, b)" by (cases p)
  show ?case
  proof (cases "in_grid m a b")
    case True
    then show ?thesis
      using Cons get_cell_ok [OF Cons.prems True] p by (auto simp add: in_grid_def)
  next
    case False
    then show ?thesis using Cons p by (auto simp add: in_grid_def)
  qed
qed

lemma break_walls_r_SucE:
  assumes run: "break_walls_r (Suc n) m i j = Some (Inr m')"
  obtains m1 where "update_cell m i j (\<lambda>c. c\<lparr>visited := True\<rparr>) = Inr m1"
    and "break_walls_loop n m1 i j = Some (Inr m')"
proof (cases "update_cell m i j (\<lambda>c. c\<lparr>visited := True\<rparr>)")
  case (Inl e)
  with run show ?thesis by simp
next
  case (Inr m1)
  with run have "break_walls_loop n m1 i j = Some (Inr m')" by simp
  with Inr show ?thesis by (rule that)
qed

lemma break_walls_loop_SucE:
  assumes run: "break_walls_loop (Suc n) m i j = Some (Inr m')"
  obtains (finished) "collect_to_visit m (neighbors i j) = Inr []" and "draw_cell m i j = Inr m'"
  | (carving) tv ni nj m1 m2 m3 where "collect_to_visit m (neighbors i j) = Inr tv" and "tv \<noteq> []"
      and "random_choice m tv = Inr ((ni, nj), m1)"
      and "break_between m1 i j ni nj = Inr m2"
      and "break_walls_r n (m2\<lparr>carved := carved m2 @ [((i, j), (ni, nj))]\<rparr>) ni nj = Some (Inr m3)"
      and "break_walls_loop n m3 i j = Some (Inr m')"
proof (cases "collect_to_visit m (neighbors i j)")
  case (Inl e)
  with run show ?thesis by simp
next
  case tv: (Inr tv)
  show ?thesis
  proof (cases "tv = []")
    case True
    with run tv have "draw_cell m i j = Inr m'" by simp
    with tv True show ?thesis by (intro finished) simp_all
  next
    case ne: False
    show ?thesis
    proof (cases "random_choice m tv")
      case (Inl e)
      with run tv ne show ?thesis by simp
    next
      case (Inr x)
      obtain ni nj m1 where x: "x = ((ni, nj), m1)" by (cases x) auto
      note ch = Inr [unfolded x]
      show ?thesis
      proof (cases "break_between m1 i j ni nj")
        case (Inl e)
        with run tv ne ch show ?thesis by simp
      next
        case bb: (Inr m2)
        show ?thesis
        proof (cases "break_walls_r n (m2\<lparr>carved := carved m2 @ [((i, j), (ni, nj))]\<rparr>) ni nj")
          case None
          with run tv ne ch bb show ?thesis by simp
        next
          case (Some r)
          show ?thesis
          proof (cases r)
            case (Inl e)
            with run tv ne ch bb Some show ?thesis by simp
          next
            case (Inr m3)
            with run tv ne ch bb Some have "break_walls_loop n m3 i j = Some (Inr m')" by simp
            with tv ne ch bb Some Inr show ?thesis by (intro carving [of tv ni nj m1 m2 m3]) simp_all
          qed
        qed
      qed
    qed
  qed
qed

lemma random_choice_state:
  "random_choice m xs = Inr (x, m1) \<Longrightarrow>
   m1 = m\<lparr>rng := (\<lambda>k. rng m (Suc k))\<rparr> \<and> xs \<noteq> [] \<and> x = xs ! (rng m 0 mod length xs)"
  by (cases "xs = []") (simp_all add: random_choice_def)

lemma marked_rel_carved: "table_rel marked_cell m m' \<Longrightarrow> table_rel carved_cell m m'"
  by (erule table_rel_mono [rotated]) (erule marked_cell_carved)

lemma break_walls_rel:
  "(break_walls_r n m i j = Some (Inr m') \<longrightarrow> table_rel carved_cell m m') \<and>
   (break_walls_loop n m i j = Some (Inr m') \<longrightarrow> table_rel carved_cell m m')"
proof (induction n arbitrary: m i j m')
  case 0
  show ?case by simp
next
  case (Suc n)
  note tr = carved_rel_trans
  have r: "table_rel carved_cell m m'" if run: "break_walls_r (Suc n) m i j = Some (Inr m')"
  proof -
    from run obtain m1 where m1: "update_cell m i j (\<lambda>c. c\<lparr>visited := True\<rparr>) = Inr m1"
      and l: "break_walls_loop n m1 i j = Some (Inr m')"
      by (rule break_walls_r_SucE)
    have "table_rel carved_cell m m1"
      using update_cell_rel [of carved_cell, OF carved_cell_refl _ m1]
      by (simp add: carved_cell_def)
    moreover have "table_rel carved_cell m1 m'" using Suc.IH l by blast
    ultimately show ?thesis by (rule tr)
  qed
  have l: "table_rel carved_cell m m'" if run: "break_walls_loop (Suc n) m i j = Some (Inr m')"
    using run
  proof (cases rule: break_walls_loop_SucE)
    case finished
    then have "table_rel marked_cell m m'" by (intro draw_cell_rel)
    then show ?thesis by (rule marked_rel_carved)
  next
    case (carving tv ni nj m1 m2 m3)
    from carving(3) have "m1 = m\<lparr>rng := (\<lambda>k. rng m (Suc k))\<rparr>"
      by (simp add: random_choice_state)
    then have a: "table_rel carved_cell m m1"
      using table_rel_refl [of carved_cell m, OF carved_cell_refl]
      by (simp add: table_rel_fields)
    have b: "table_rel carved_cell m1 m2" using carving(4) by (rule break_between_rel)
    have "table_rel carved_cell (m2\<lparr>carved := carved m2 @ [((i, j), (ni, nj))]\<rparr>) m3"
      using Suc.IH carving(5) by blast
    then have c: "table_rel carved_cell m2 m3" by (simp add: table_rel_fields)
    have d: "table_rel carved_cell m3 m'" using Suc.IH carving(6) by blast
    show ?thesis using a b c d tr by blast
  qed
  show ?case using r l by blast
qed

lemma grid_ok_fields [simp]:
  "grid_ok (m\<lparr>canvas := cv\<rparr>) = grid_ok m" "grid_ok (m\<lparr>frames := fr\<rparr>) = grid_ok m"
  "grid_ok (m\<lparr>rng := rg\<rparr>) = grid_ok m" "grid_ok (m\<lparr>carved := cd\<rparr>) = grid_ok m"
  by (simp_all add: grid_ok_def)

lemma in_grid_fields [simp]:
  "in_grid (m\<lparr>canvas := cv\<rparr>) = in_grid m" "in_grid (m\<lparr>frames := fr\<rparr>) = in_grid m"
  "in_grid (m\<lparr>rng := rg\<rparr>) = in_grid m" "in_grid (m\<lparr>carved := cd\<rparr>) = in_grid m"
  by (simp_all add: in_grid_def fun_eq_iff)

lemma cell_at_fields [simp]:
  "cell_at (m\<lparr>canvas := cv\<rparr>) = cell_at m" "cell_at (m\<lparr>frames := fr\<rparr>) = cell_at m"
  "cell_at (m\<lparr>rng := rg\<rparr>) = cell_at m" "cell_at (m\<lparr>carved := cd\<rparr>) = cell_at m"
  by (simp_all add: cell_at_def fun_eq_iff)

lemma upd_fields_out:
  "upd (m\<lparr>rng := rg\<rparr>) i j f = (upd m i j f)\<lparr>rng := rg\<rparr>"
  "upd (m\<lparr>carved := cd\<rparr>) i j f = (upd m i j f)\<lparr>carved := cd\<rparr>"
  "upd (m\<lparr>canvas := cv\<rparr>) i j f = (upd m i j f)\<lparr>canvas := cv\<rparr>"
  "upd (m\<lparr>frames := fr\<rparr>) i j f = (upd m i j f)\<lparr>frames := fr\<rparr>"
  by (simp_all add: upd_def)

lemma table_rel_ok:
  assumes rel: "table_rel R m m'" and ok: "grid_ok m"
  shows "grid_ok m'" and "in_grid m' = in_grid m"
    and "in_grid m a b \<Longrightarrow> R (cell_at m a b) (cell_at m' a b)"
proof -
  from rel have sh: "num_rows m' = num_rows m" "num_cols m' = num_cols m"
    and all: "list_all2 (list_all2 R) (cells m) (cells m')"
    by (simp_all add: table_rel_def same_shape_def)
  from all have len: "length (cells m') = length (cells m)"
    by (simp add: list_all2_lengthD)
  have row: "list_all2 R (cells m ! r) (cells m' ! r)" if "r < length (cells m)" for r
    using all that by (rule list_all2_nthD)
  have rowlen: "length (cells m' ! r) = nat (num_cols m)" if r: "r < length (cells m)" for r
  proof -
    from r have "cells m ! r \<in> set (cells m)" by simp
    with ok have "length (cells m ! r) = nat (num_cols m)" by (simp add: grid_ok_def)
    with row [OF r] show ?thesis by (simp add: list_all2_lengthD)
  qed
  have "length row = nat (num_cols m')" if "row \<in> set (cells m')" for row
  proof -
    from that obtain r where "r < length (cells m')" "row = cells m' ! r"
      by (auto simp add: in_set_conv_nth)
    with rowlen [of r] len sh show ?thesis by simp
  qed
  with ok len sh show "grid_ok m'" by (simp add: grid_ok_def)
  show "in_grid m' = in_grid m" using sh by (simp add: in_grid_def fun_eq_iff)
  assume ing: "in_grid m a b"
  then have r: "nat a < length (cells m)" using ok by (simp add: in_grid_def grid_ok_def)
  have "nat b < length (cells m ! nat a)"
    using ing grid_ok_row [OF ok, of a] by (simp add: in_grid_def)
  with row [OF r] show "R (cell_at m a b) (cell_at m' a b)"
    unfolding cell_at_def by (rule list_all2_nthD)
qed

lemma grid_ok_mark [simp]: "grid_ok m \<Longrightarrow> grid_ok (mark m i j)"
  by (simp add: mark_def grid_ok_upd)

lemma grid_ok_opened [simp]: "grid_ok m \<Longrightarrow> grid_ok (opened m i j ni nj)"
  by (simp add: opened_def grid_ok_upd)

lemma grid_ok_carve [simp]: "grid_ok m \<Longrightarrow> grid_ok (carve m i j ni nj)"
  by (simp add: carve_def)

lemma grid_ok_drawn [simp]: "grid_ok (drawn m i j) = grid_ok m"
  by (simp add: drawn_def animate_def)

lemma in_grid_steps [simp]:
  "in_grid (mark m i j) = in_grid m" "in_grid (opened m i j ni nj) = in_grid m"
  "in_grid (carve m i j ni nj) = in_grid m" "in_grid (drawn m i j) = in_grid m"
  by (simp_all add: mark_def opened_def carve_def drawn_def animate_def fun_eq_iff)

lemma cell_at_mark:
  "grid_ok m \<Longrightarrow> in_grid m i j \<Longrightarrow> in_grid m a b \<Longrightarrow>
   cell_at (mark m i j) a b =
     (if a = i \<and> b = j then (cell_at m i j)\<lparr>visited := True\<rparr> else cell_at m a b)"
  by (simp add: mark_def cell_at_upd)

lemma cell_at_opened:
  assumes "grid_ok m" "in_grid m i j" "in_grid m ni nj" "in_grid m a b"
  shows "cell_at (opened m i j ni nj) a b =
     (if a = ni \<and> b = nj then clear_toward ni nj i j (cell_at (upd m i j (clear_toward i j ni nj)) ni nj)
      else if a = i \<and> b = j then clear_toward i j ni nj (cell_at m i j)
      else cell_at m a b)"
proof -
  let ?m1 = "upd m i j (clear_toward i j ni nj)"
  have ok1: "grid_ok ?m1" using assms(1) by (rule grid_ok_upd)
  have outer: "cell_at (upd ?m1 ni nj (clear_toward ni nj i j)) a b =
      (if a = ni \<and> b = nj then clear_toward ni nj i j (cell_at ?m1 ni nj) else cell_at ?m1 a b)"
    using ok1 assms(3,4) by (intro cell_at_upd) simp_all
  have inner: "cell_at ?m1 a b =
      (if a = i \<and> b = j then clear_toward i j ni nj (cell_at m i j) else cell_at m a b)"
    using assms(1,2,4) by (rule cell_at_upd)
  show ?thesis
  proof (cases "a = ni \<and> b = nj")
    case True
    with outer show ?thesis unfolding opened_def by simp
  next
    case False
    with outer have "cell_at (opened m i j ni nj) a b = cell_at ?m1 a b"
      unfolding opened_def by simp
    with inner False show ?thesis by auto
  qed
qed

lemma cell_at_carve [simp]: "cell_at (carve m i j ni nj) = cell_at (opened m i j ni nj)"
  by (simp add: carve_def)

lemma cell_at_drawn [simp]: "cell_at (drawn m i j) = cell_at m"
  by (simp add: drawn_def animate_def)

lemma break_between_ok:
  assumes ok: "grid_ok m" and c: "in_grid m i j" and n: "in_grid m ni nj"
  shows "break_between m i j ni nj = Inr (opened m i j ni nj)"
proof -
  have two: "(case update_cell m i j f of Inl e \<Rightarrow> Inl e | Inr ma \<Rightarrow> update_cell ma ni nj g)
      = Inr (upd (upd m i j f) ni nj g)" for f g
    using update_cell_ok [OF ok c, of f] update_cell_ok [OF grid_ok_upd [OF ok], of i j f ni nj g] n
    by simp
  have same: "upd (upd m i j (\<lambda>c. c)) ni nj (\<lambda>c. c) = m"
    by (simp add: upd_def)
  consider "nj > j" | "\<not> nj > j" "nj < j" | "\<not> nj > j" "\<not> nj < j" "ni > i"
    | "\<not> nj > j" "\<not> nj < j" "\<not> ni > i" "ni < i"
    | "\<not> nj > j" "\<not> nj < j" "\<not> ni > i" "\<not> ni < i"
    by blast
  then show ?thesis
  proof cases
    case 1
    then have "clear_toward i j ni nj = (\<lambda>c. c\<lparr>has_right_wall := False\<rparr>)"
      "clear_toward ni nj i j = (\<lambda>c. c\<lparr>has_left_wall := False\<rparr>)"
      by (simp_all add: clear_toward_def fun_eq_iff)
    with 1 two show ?thesis by (simp add: break_between_def opened_def)
  next
    case 2
    then have "clear_toward i j ni nj = (\<lambda>c. c\<lparr>has_left_wall := False\<rparr>)"
      "clear_toward ni nj i j = (\<lambda>c. c\<lparr>has_right_wall := False\<rparr>)"
      by (simp_all add: clear_toward_def fun_eq_iff)
    with 2 two show ?thesis by (simp add: break_between_def opened_def)
  next
    case 3
    then have "clear_toward i j ni nj = (\<lambda>c. c\<lparr>has_bottom_wall := False\<rparr>)"
      "clear_toward ni nj i j = (\<lambda>c. c\<lparr>has_top_wall := False\<rparr>)"
      by (simp_all add: clear_toward_def fun_eq_iff)
    with 3 two show ?thesis by (simp add: break_between_def opened_def)
  next
    case 4
    then have "clear_toward i j ni nj = (\<lambda>c. c\<lparr>has_top_wall := False\<rparr>)"
      "clear_toward ni nj i j = (\<lambda>c. c\<lparr>has_bottom_wall := False\<rparr>)"
      by (simp_all add: clear_toward_def fun_eq_iff)
    with 4 two show ?thesis by (simp add: break_between_def opened_def)
  next
    case 5
    then have "clear_toward i j ni nj = (\<lambda>c. c)" "clear_toward ni nj i j = (\<lambda>c. c)"
      by (simp_all add: clear_toward_def fun_eq_iff)
    with 5 same show ?thesis by (simp add: break_between_def opened_def)
  qed
qed

lemma to_visit_ok: "grid_ok m \<Longrightarrow> collect_to_visit m (neighbors i j) = Inr (to_visit m i j)"
  by (simp add: collect_to_visit_ok to_visit_def)

lemma to_visit_member:
  "(a, b) \<in> set (to_visit m i j) \<longleftrightarrow>
     (a, b) \<in> set (neighbors i j) \<and> in_grid m a b \<and> \<not> visited (cell_at m a b)"
  by (auto simp add: to_visit_def)

lemma chosen_member: "to_visit m i j \<noteq> [] \<Longrightarrow> chosen m i j \<in> set (to_visit m i j)"
  by (simp add: chosen_def)

lemma draw_cell_ok: "grid_ok m \<Longrightarrow> in_grid m i j \<Longrightarrow> draw_cell m i j = Inr (drawn m i j)"
  by (simp add: draw_cell_def get_cell_ok drawn_def)

lemma break_walls_r_Suc_ok:
  "grid_ok m \<Longrightarrow> in_grid m i j \<Longrightarrow>
   break_walls_r (Suc n) m i j = break_walls_loop n (mark m i j) i j"
  by (simp add: update_cell_ok mark_def)

lemma break_walls_loop_done_ok:
  "grid_ok m \<Longrightarrow> in_grid m i j \<Longrightarrow> to_visit m i j = [] \<Longrightarrow>
   break_walls_loop (Suc n) m i j = Some (Inr (drawn m i j))"
  by (simp add: to_visit_ok draw_cell_ok)

lemma break_walls_loop_step_ok:
  assumes ok: "grid_ok m" and c: "in_grid m i j" and ne: "to_visit m i j \<noteq> []"
    and ch: "chosen m i j = (ni, nj)"
  shows "break_walls_loop (Suc n) m i j =
     (case break_walls_r n (carve m i j ni nj) ni nj of
        None \<Rightarrow> None
      | Some (Inl e) \<Rightarrow> Some (Inl e)
      | Some (Inr m3) \<Rightarrow> break_walls_loop n m3 i j)"
proof -
  let ?m1 = "m\<lparr>rng := (\<lambda>k. rng m (Suc k))\<rparr>"
  have rc: "random_choice m (to_visit m i j) = Inr ((ni, nj), ?m1)"
    using ne ch by (simp add: random_choice_def chosen_def)
  have "(ni, nj) \<in> set (to_visit m i j)" using chosen_member [OF ne] ch by simp
  then have n: "in_grid m ni nj" by (simp add: to_visit_member)
  have bb: "break_between ?m1 i j ni nj = Inr (opened ?m1 i j ni nj)"
    using ok c n by (intro break_between_ok) simp_all
  have cv: "(opened ?m1 i j ni nj)\<lparr>carved := carved (opened ?m1 i j ni nj) @ [((i, j), (ni, nj))]\<rparr>
      = carve m i j ni nj"
    by (simp add: carve_def opened_def upd_fields_out)
  show ?thesis
    using ne by (simp add: to_visit_ok [OF ok] rc bb cv)
qed

lemma break_walls_induct:
  fixes P L :: "maze \<Rightarrow> int \<Rightarrow> int \<Rightarrow> bool" and A B :: "maze \<Rightarrow> int \<Rightarrow> int \<Rightarrow> maze \<Rightarrow> bool"
  assumes enter: "\<And>m i j. grid_ok m \<Longrightarrow> in_grid m i j \<Longrightarrow> P m i j \<Longrightarrow> L (mark m i j) i j"
    and leave: "\<And>m i j m'. grid_ok m \<Longrightarrow> in_grid m i j \<Longrightarrow> P m i j \<Longrightarrow>
        table_rel carved_cell (mark m i j) m' \<Longrightarrow> B (mark m i j) i j m' \<Longrightarrow> A m i j m'"
    and finish: "\<And>m i j. grid_ok m \<Longrightarrow> in_grid m i j \<Longrightarrow> L m i j \<Longrightarrow> to_visit m i j = [] \<Longrightarrow>
        B m i j (drawn m i j)"
    and down: "\<And>m i j ni nj. grid_ok m \<Longrightarrow> in_grid m i j \<Longrightarrow> L m i j \<Longrightarrow>
        (ni, nj) \<in> set (to_visit m i j) \<Longrightarrow> P (carve m i j ni nj) ni nj"
    and up: "\<And>m i j ni nj m3. grid_ok m \<Longrightarrow> in_grid m i j \<Longrightarrow> L m i j \<Longrightarrow>
        (ni, nj) \<in> set (to_visit m i j) \<Longrightarrow> table_rel carved_cell (carve m i j ni nj) m3 \<Longrightarrow>
        A (carve m i j ni nj) ni nj m3 \<Longrightarrow> L m3 i j"
    and seq: "\<And>m i j ni nj m3 m'. grid_ok m \<Longrightarrow> in_grid m i j \<Longrightarrow> L m i j \<Longrightarrow>
        (ni, nj) \<in> set (to_visit m i j) \<Longrightarrow> table_rel carved_cell (carve m i j ni nj) m3 \<Longrightarrow>
        A (carve m i j ni nj) ni nj m3 \<Longrightarrow> table_rel carved_cell m3 m' \<Longrightarrow> B m3 i j m' \<Longrightarrow>
        B m i j m'"
  shows "(grid_ok m \<longrightarrow> in_grid m i j \<longrightarrow> P m i j \<longrightarrow>
            break_walls_r n m i j = Some (Inr m') \<longrightarrow> A m i j m') \<and>
         (grid_ok m \<longrightarrow> in_grid m i j \<longrightarrow> L m i j \<longrightarrow>
            break_walls_loop n m i j = Some (Inr m') \<longrightarrow> B m i j m')"
proof (induction n arbitrary: m i j m')
  case 0
  show ?case by simp
next
  case (Suc n)
  have ihr: "A m i j m'" if "grid_ok m" "in_grid m i j" "P m i j"
      "break_walls_r n m i j = Some (Inr m')" for m i j m'
    using Suc.IH [of m i j m'] that by blast
  have ihl: "B m i j m'" if "grid_ok m" "in_grid m i j" "L m i j"
      "break_walls_loop n m i j = Some (Inr m')" for m i j m'
    using Suc.IH [of m i j m'] that by blast
  have r: "A m i j m'" if ok: "grid_ok m" and c: "in_grid m i j" and p: "P m i j"
    and run: "break_walls_r (Suc n) m i j = Some (Inr m')"
  proof -
    from run have lp: "break_walls_loop n (mark m i j) i j = Some (Inr m')"
      by (simp only: break_walls_r_Suc_ok [OF ok c])
    have ok1: "grid_ok (mark m i j)" using ok by simp
    have c1: "in_grid (mark m i j) i j" using c by simp
    have "B (mark m i j) i j m'" using ok1 c1 enter [OF ok c p] lp by (rule ihl)
    moreover have "table_rel carved_cell (mark m i j) m'"
      using break_walls_rel [of n "mark m i j" i j m'] lp by blast
    ultimately show ?thesis using leave [OF ok c p] by blast
  qed
  have l: "B m i j m'" if ok: "grid_ok m" and c: "in_grid m i j" and inv: "L m i j"
    and run: "break_walls_loop (Suc n) m i j = Some (Inr m')"
  proof (cases "to_visit m i j = []")
    case True
    with run have "m' = drawn m i j"
      by (simp only: break_walls_loop_done_ok [OF ok c True]) simp
    with finish [OF ok c inv True] show ?thesis by simp
  next
    case False
    obtain ni nj where ch: "chosen m i j = (ni, nj)" by (cases "chosen m i j")
    have mem: "(ni, nj) \<in> set (to_visit m i j)" using chosen_member [OF False] ch by simp
    let ?m2 = "carve m i j ni nj"
    have eq: "(case break_walls_r n ?m2 ni nj of None \<Rightarrow> None | Some (Inl e) \<Rightarrow> Some (Inl e)
        | Some (Inr m3) \<Rightarrow> break_walls_loop n m3 i j) = Some (Inr m')"
      using run by (simp only: break_walls_loop_step_ok [OF ok c False ch])
    then obtain m3 where rc: "break_walls_r n ?m2 ni nj = Some (Inr m3)"
      and lp: "break_walls_loop n m3 i j = Some (Inr m')"
      by (cases "break_walls_r n ?m2 ni nj"; simp split: sum.splits)
    have ok2: "grid_ok ?m2" using ok by simp
    have c2: "in_grid ?m2 ni nj" using mem by (simp add: to_visit_member)
    have rel2: "table_rel carved_cell ?m2 m3"
      using break_walls_rel [of n ?m2 ni nj m3] rc by blast
    have a: "A ?m2 ni nj m3" using ok2 c2 down [OF ok c inv mem] rc by (rule ihr)
    have ok3: "grid_ok m3" using rel2 ok2 by (rule table_rel_ok(1))
    have c3: "in_grid m3 i j" using table_rel_ok(2) [OF rel2 ok2] c by simp
    have inv3: "L m3 i j" using ok c inv mem rel2 a by (rule up)
    have b: "B m3 i j m'" using ok3 c3 inv3 lp by (rule ihl)
    have rel3: "table_rel carved_cell m3 m'"
      using break_walls_rel [of n m3 i j m'] lp by blast
    show ?thesis using ok c inv mem rel2 a rel3 b by (rule seq)
  qed
  show ?case using r l by blast
qed

lemma finite_positions: "finite (positions m)"
  by (simp add: positions_def)

lemma card_positions: "card (positions m) = nat (num_rows m) * nat (num_cols m)"
  by (simp add: positions_def card_cartesian_product)

lemma in_grid_positions: "in_grid m a b \<longleftrightarrow> (a, b) \<in> positions m"
  by (auto simp add: in_grid_def positions_def)

lemma unvisited_subset: "unvisited m \<subseteq> positions m"
  by (auto simp add: unvisited_def in_grid_positions)

lemma visited_set_subset: "visited_set m \<subseteq> positions m"
  by (auto simp add: visited_set_def in_grid_positions)

lemma finite_unvisited: "finite (unvisited m)"
  using unvisited_subset finite_positions by (rule finite_subset)

lemma finite_visited_set: "finite (visited_set m)"
  using visited_set_subset finite_positions by (rule finite_subset)

lemma card_unvisited_le: "card (unvisited m) \<le> nat (num_rows m) * nat (num_cols m)"
  using card_mono [OF finite_positions unvisited_subset, of m] by (simp add: card_positions)

lemma visited_clear_toward [simp]: "visited (clear_toward i j ni nj c) = visited c"
  by (simp add: clear_toward_def)

lemma visited_opened:
  assumes "grid_ok m" "in_grid m i j" "in_grid m ni nj" "in_grid m a b"
  shows "visited (cell_at (opened m i j ni nj) a b) = visited (cell_at m a b)"
proof -
  have "cell_at (upd m i j (clear_toward i j ni nj)) ni nj =
      (if ni = i \<and> nj = j then clear_toward i j ni nj (cell_at m i j) else cell_at m ni nj)"
    using assms(1,2,3) by (rule cell_at_upd)
  then have "visited (cell_at (upd m i j (clear_toward i j ni nj)) ni nj) = visited (cell_at m ni nj)"
    by (cases "ni = i \<and> nj = j") simp_all
  then show ?thesis
    using cell_at_opened [OF assms] by (simp split: if_splits)
qed

lemma unvisited_carve:
  assumes "grid_ok m" "in_grid m i j" "in_grid m ni nj"
  shows "unvisited (carve m i j ni nj) = unvisited m"
  unfolding unvisited_def using visited_opened [OF assms] by auto

lemma visited_set_carve:
  assumes "grid_ok m" "in_grid m i j" "in_grid m ni nj"
  shows "visited_set (carve m i j ni nj) = visited_set m"
  unfolding visited_set_def using visited_opened [OF assms] by auto

lemma visited_mark:
  assumes "grid_ok m" "in_grid m i j" "in_grid m a b"
  shows "visited (cell_at (mark m i j) a b) \<longleftrightarrow> visited (cell_at m a b) \<or> (a = i \<and> b = j)"
  using cell_at_mark [OF assms] by auto

lemma unvisited_mark:
  assumes "grid_ok m" "in_grid m i j"
  shows "unvisited (mark m i j) = unvisited m - {(i, j)}"
  unfolding unvisited_def using visited_mark [OF assms] by auto

lemma visited_set_mark:
  assumes "grid_ok m" "in_grid m i j"
  shows "visited_set (mark m i j) = insert (i, j) (visited_set m)"
  unfolding visited_set_def using visited_mark [OF assms] assms(2) by auto

lemma unvisited_drawn [simp]: "unvisited (drawn m i j) = unvisited m"
  by (simp add: unvisited_def)

lemma visited_set_drawn [simp]: "visited_set (drawn m i j) = visited_set m"
  by (simp add: visited_set_def)

lemma carved_rel_visited:
  assumes rel: "table_rel carved_cell m m'" and ok: "grid_ok m"
  shows "unvisited m' \<subseteq> unvisited m" and "visited_set m \<subseteq> visited_set m'"
proof -
  have g: "in_grid m' = in_grid m" using rel ok by (rule table_rel_ok(2))
  have v: "visited (cell_at m a b) \<Longrightarrow> visited (cell_at m' a b)" if "in_grid m a b" for a b
    using table_rel_ok(3) [OF rel ok that] by (simp add: carved_cell_def)
  show "unvisited m' \<subseteq> unvisited m" unfolding unvisited_def using g v by auto
  show "visited_set m \<subseteq> visited_set m'" unfolding visited_set_def using g v by auto
qed

lemma break_walls_loop_returns:
  "grid_ok m \<Longrightarrow> in_grid m i j \<Longrightarrow> card (unvisited m) = u \<Longrightarrow> 2 * u + 1 \<le> n \<Longrightarrow>
   \<exists>m'. break_walls_loop n m i j = Some (Inr m')"
proof (induction u arbitrary: m i j n rule: less_induct)
  case (less u)
  from less.prems(4) obtain n1 where n: "n = Suc n1" by (cases n) simp_all
  note ok = less.prems(1) and c = less.prems(2)
  show ?case
  proof (cases "to_visit m i j = []")
    case True
    then show ?thesis using break_walls_loop_done_ok [OF ok c True] n by simp
  next
    case False
    obtain ni nj where ch: "chosen m i j = (ni, nj)" by (cases "chosen m i j")
    have mem: "(ni, nj) \<in> set (to_visit m i j)" using chosen_member [OF False] ch by simp
    then have c2: "in_grid m ni nj" and unv: "(ni, nj) \<in> unvisited m"
      by (simp_all add: to_visit_member unvisited_def)
    let ?m2 = "carve m i j ni nj"
    let ?m2' = "mark ?m2 ni nj"
    have ok2: "grid_ok ?m2" using ok by simp
    have g2: "in_grid ?m2 ni nj" using c2 by simp
    have u2: "unvisited ?m2 = unvisited m" using ok c c2 by (rule unvisited_carve)
    have "unvisited ?m2' = unvisited m - {(ni, nj)}"
      using unvisited_mark [OF ok2 g2] u2 by simp
    then have "card (unvisited ?m2') = card (unvisited m) - 1"
      using unv by (simp add: card_Diff_singleton)
    then have cm: "card (unvisited ?m2') = u - 1" using less.prems(3) by simp
    have "unvisited m \<noteq> {}" using unv by blast
    then have "0 < card (unvisited m)" using finite_unvisited [of m] by (simp add: card_gt_0_iff)
    then have pos: "0 < u" using less.prems(3) by simp
    from pos less.prems(4) n obtain n2 where n1: "n1 = Suc n2" by (cases n1) simp_all
    have ok2': "grid_ok ?m2'" using ok2 by simp
    have g2': "in_grid ?m2' ni nj" using g2 by simp
    have "\<exists>m3. break_walls_loop n2 ?m2' ni nj = Some (Inr m3)"
      using ok2' g2' cm
    proof (rule less.IH [rotated])
      show "u - 1 < u" using pos by simp
      show "2 * (u - 1) + 1 \<le> n2" using less.prems(4) n n1 pos by simp
    qed
    then obtain m3 where lp3: "break_walls_loop n2 ?m2' ni nj = Some (Inr m3)" by blast
    then have rc: "break_walls_r n1 ?m2 ni nj = Some (Inr m3)"
      using break_walls_r_Suc_ok [OF ok2 g2, of n2] n1 by simp
    have rel: "table_rel carved_cell ?m2' m3"
      using break_walls_rel [of n2 ?m2' ni nj m3] lp3 by blast
    have ok3: "grid_ok m3" using rel ok2' by (rule table_rel_ok(1))
    have g3: "in_grid m3 i j" using table_rel_ok(2) [OF rel ok2'] c by simp
    have "card (unvisited m3) \<le> card (unvisited ?m2')"
      using carved_rel_visited(1) [OF rel ok2'] finite_unvisited by (rule card_mono [rotated])
    then have lt: "card (unvisited m3) < u" using cm pos by simp
    have "\<exists>m'. break_walls_loop n1 m3 i j = Some (Inr m')"
      using lt ok3 g3 refl
    proof (rule less.IH)
      show "2 * card (unvisited m3) + 1 \<le> n1" using lt less.prems(4) n by simp
    qed
    then show ?thesis
      using break_walls_loop_step_ok [OF ok c False ch, of n1] rc n by simp
  qed
qed

lemma break_walls_r_returns:
  assumes ok: "grid_ok m" and c: "in_grid m i j" and n: "2 * card (unvisited m) + 2 \<le> n"
  shows "\<exists>m'. break_walls_r n m i j = Some (Inr m')"
proof -
  from n obtain n1 where n1: "n = Suc n1" by (cases n) simp_all
  have "card (unvisited (mark m i j)) \<le> card (unvisited m)"
    using unvisited_mark [OF ok c] finite_unvisited [of m] by (simp add: card_Diff_subset_Int card_mono)
  then have "2 * card (unvisited (mark m i j)) + 1 \<le> n1" using n n1 by simp
  then have "\<exists>m'. break_walls_loop n1 (mark m i j) i j = Some (Inr m')"
    using ok c by (intro break_walls_loop_returns [OF _ _ refl]) simp_all
  then show ?thesis using break_walls_r_Suc_ok [OF ok c, of n1] n1 by simp
qed

lemma maze_first_carved:
  "map_option (map_sum id carved) (Maze 8 0 0 2 2 10 10 [] None always_first) =
     Some (Inr [((0, 0), (1, 0)), ((1, 0), (1, 1)), ((1, 1), (0, 1))])"
  by code_simp

lemma maze_first_walls:
  "map_option (map_sum id wall_table) (Maze 8 0 0 2 2 10 10 [] None always_first) =
     Some (Inr [[(True, True, False, False), (True, True, True, False)],
                [(True, False, False, True), (False, True, False, False)]])"
  by code_simp

lemma maze_last_carved:
  "map_option (map_sum id carved) (Maze 8 0 0 2 2 10 10 [] None always_last) =
     Some (Inr [((0, 0), (0, 1)), ((0, 1), (1, 1)), ((1, 1), (1, 0))])"
  by code_simp

lemma maze_seed_first:
  "map_option (map_sum id carved) (Maze 8 0 0 2 2 10 10 [] (Some 7) always_first) =
     Some (Inr [((0, 0), (1, 0)), ((1, 0), (1, 1)), ((1, 1), (0, 1))])"
  by code_simp

lemma maze_seed_last:
  "map_option (map_sum id carved) (Maze 8 0 0 2 2 10 10 [] (Some 7) always_last) =
     Some (Inr [((0, 0), (0, 1)), ((0, 1), (1, 1)), ((1, 1), (1, 0))])"
  by code_simp

lemma one_sided_solve:
  "map_option (map_sum id (apsnd visited_table)) (solve 2 one_sided) = Some (Inr (True, [[True, True]]))"
  by code_simp

lemma one_sided_flags:
  "\<not> has_right_wall (cell_at one_sided 0 0) \<and> has_left_wall (cell_at one_sided 0 1)"
  by (simp add: one_sided_def cell_at_def new_cell_def)

text \<open>
  C3 (as stated, refuted). On the 2 by 2 grid with every draw selecting the first
  enumerated candidate, the carve order is not (0,0), (0,1), (1,1), (1,0).
\<close>

theorem first_choice_order_counterexample:
  "map_option (map_sum id carved) (Maze 8 0 0 2 2 10 10 [] None always_first) \<noteq>
     Some (Inr [((0, 0), (0, 1)), ((0, 1), (1, 1)), ((1, 1), (1, 0))])"
  by (simp add: maze_first_carved)

text \<open>
  C3 (amended). The candidates are enumerated in the order up, down, left, right, so the
  first candidate of (0,0) is (1,0). With every draw selecting the first candidate the
  2 by 2 grid is carved (0,0), (1,0), (1,1), (0,1); in the final table the top wall of (0,0)
  and the bottom wall of (1,1) are open, the wall pairs (0,0)-(1,0), (1,0)-(1,1) and
  (1,1)-(0,1) are open on both sides, and the one remaining internal pair, (0,0)-(0,1), is
  closed on both sides. Each cell is listed as (left, right, top, bottom).
\<close>

theorem first_choice_scenario:
  "map_option (map_sum id carved) (Maze 8 0 0 2 2 10 10 [] None always_first) =
     Some (Inr [((0, 0), (1, 0)), ((1, 0), (1, 1)), ((1, 1), (0, 1))]) \<and>
   map_option (map_sum id wall_table) (Maze 8 0 0 2 2 10 10 [] None always_first) =
     Some (Inr [[(True, True, False, False), (True, True, True, False)],
                [(True, False, False, True), (False, True, False, False)]])"
  by (simp only: maze_first_carved maze_first_walls)

text \<open>
  C4. The constructor stores \<open>seed\<close> and never passes it to the random generator, so
  the carving depends on the generator's state and not on the seed: two constructions with
  the same seed 7 and the same 2 by 2 dimensions break different sequences of wall pairs
  when the generator's draws differ.
\<close>

theorem same_seed_different_mazes:
  "map_option (map_sum id carved) (Maze 8 0 0 2 2 10 10 [] (Some 7) always_first) \<noteq>
   map_option (map_sum id carved) (Maze 8 0 0 2 2 10 10 [] (Some 7) always_last)"
  by (simp add: maze_seed_first maze_seed_last)

lemma neighbors_cases:
  assumes "(ni, nj) \<in> set (neighbors i j)"
  obtains (up) "ni = i - 1" "nj = j" | (down) "ni = i + 1" "nj = j"
    | (left) "ni = i" "nj = j - 1" | (right) "ni = i" "nj = j + 1"
  using assms by (auto simp add: neighbors_def)

lemma clear_toward_up: "clear_toward i j (i - 1) j c = c\<lparr>has_top_wall := False\<rparr>"
  and clear_toward_down: "clear_toward i j (i + 1) j c = c\<lparr>has_bottom_wall := False\<rparr>"
  and clear_toward_left: "clear_toward i j i (j - 1) c = c\<lparr>has_left_wall := False\<rparr>"
  and clear_toward_right: "clear_toward i j i (j + 1) c = c\<lparr>has_right_wall := False\<rparr>"
  by (simp_all add: clear_toward_def)

lemma clear_toward_from_up: "clear_toward (i - 1) j i j c = c\<lparr>has_bottom_wall := False\<rparr>"
  and clear_toward_from_down: "clear_toward (i + 1) j i j c = c\<lparr>has_top_wall := False\<rparr>"
  and clear_toward_from_left: "clear_toward i (j - 1) i j c = c\<lparr>has_right_wall := False\<rparr>"
  and clear_toward_from_right: "clear_toward i (j + 1) i j c = c\<lparr>has_left_wall := False\<rparr>"
  by (simp_all add: clear_toward_def)

lemmas clear_toward_simps =
  clear_toward_up clear_toward_down clear_toward_left clear_toward_right
  clear_toward_from_up clear_toward_from_down clear_toward_from_left clear_toward_from_right

lemma cell_at_opened_nb:
  assumes ok: "grid_ok m" and c: "in_grid m i j" and n: "in_grid m ni nj"
    and nb: "(ni, nj) \<in> set (neighbors i j)" and ab: "in_grid m a b"
  shows "cell_at (opened m i j ni nj) a b =
     (if a = ni \<and> b = nj then clear_toward ni nj i j (cell_at m ni nj)
      else if a = i \<and> b = j then clear_toward i j ni nj (cell_at m i j)
      else cell_at m a b)"
proof -
  from nb have ne: "\<not> (ni = i \<and> nj = j)" by (auto simp add: neighbors_def)
  have "cell_at (upd m i j (clear_toward i j ni nj)) ni nj = cell_at m ni nj"
    using cell_at_upd [OF ok c n, of "clear_toward i j ni nj"] ne by simp
  then show ?thesis using cell_at_opened [OF ok c n ab] by simp
qed

lemma opened_flags:
  assumes ok: "grid_ok m" and c: "in_grid m i j" and n: "in_grid m ni nj"
    and nb: "(ni, nj) \<in> set (neighbors i j)" and ab: "in_grid m a b"
  shows "has_right_wall (cell_at (opened m i j ni nj) a b) \<longleftrightarrow>
           has_right_wall (cell_at m a b) \<and> \<not> joins i j ni nj (a, b) (a, b + 1)"
    and "has_left_wall (cell_at (opened m i j ni nj) a b) \<longleftrightarrow>
           has_left_wall (cell_at m a b) \<and> \<not> joins i j ni nj (a, b) (a, b - 1)"
    and "has_bottom_wall (cell_at (opened m i j ni nj) a b) \<longleftrightarrow>
           has_bottom_wall (cell_at m a b) \<and> \<not> joins i j ni nj (a, b) (a + 1, b)"
    and "has_top_wall (cell_at (opened m i j ni nj) a b) \<longleftrightarrow>
           has_top_wall (cell_at m a b) \<and> \<not> joins i j ni nj (a, b) (a - 1, b)"
    and "visited (cell_at (opened m i j ni nj) a b) = visited (cell_at m a b)"
    and "top_x (cell_at (opened m i j ni nj) a b) = top_x (cell_at m a b)"
    and "top_y (cell_at (opened m i j ni nj) a b) = top_y (cell_at m a b)"
    and "bottom_x (cell_at (opened m i j ni nj) a b) = bottom_x (cell_at m a b)"
    and "bottom_y (cell_at (opened m i j ni nj) a b) = bottom_y (cell_at m a b)"
proof -
  note eq = cell_at_opened_nb [OF ok c n nb ab]
  show "has_right_wall (cell_at (opened m i j ni nj) a b) \<longleftrightarrow>
           has_right_wall (cell_at m a b) \<and> \<not> joins i j ni nj (a, b) (a, b + 1)"
    using eq by (cases rule: neighbors_cases [OF nb])
      (auto simp add: joins_def clear_toward_simps)
  show "has_left_wall (cell_at (opened m i j ni nj) a b) \<longleftrightarrow>
           has_left_wall (cell_at m a b) \<and> \<not> joins i j ni nj (a, b) (a, b - 1)"
    using eq by (cases rule: neighbors_cases [OF nb])
      (auto simp add: joins_def clear_toward_simps)
  show "has_bottom_wall (cell_at (opened m i j ni nj) a b) \<longleftrightarrow>
           has_bottom_wall (cell_at m a b) \<and> \<not> joins i j ni nj (a, b) (a + 1, b)"
    using eq by (cases rule: neighbors_cases [OF nb])
      (auto simp add: joins_def clear_toward_simps)
  show "has_top_wall (cell_at (opened m i j ni nj) a b) \<longleftrightarrow>
           has_top_wall (cell_at m a b) \<and> \<not> joins i j ni nj (a, b) (a - 1, b)"
    using eq by (cases rule: neighbors_cases [OF nb])
      (auto simp add: joins_def clear_toward_simps)
  show "visited (cell_at (opened m i j ni nj) a b) = visited (cell_at m a b)"
    using ok c n ab by (rule visited_opened)
  show "top_x (cell_at (opened m i j ni nj) a b) = top_x (cell_at m a b)"
    "top_y (cell_at (opened m i j ni nj) a b) = top_y (cell_at m a b)"
    "bottom_x (cell_at (opened m i j ni nj) a b) = bottom_x (cell_at m a b)"
    "bottom_y (cell_at (opened m i j ni nj) a b) = bottom_y (cell_at m a b)"
    by (simp_all add: eq clear_toward_def)
qed

lemma length_py_range [simp]: "length (py_range n) = nat n"
  by (simp add: py_range_def)

lemma nth_py_range: "k < nat n \<Longrightarrow> py_range n ! k = int k"
  by (simp add: py_range_def)

lemma length_build_row [simp]: "length (build_row m i) = nat (num_cols m)"
  by (simp add: build_row_def Let_def)

lemma grid_ok_fresh [simp]: "grid_ok (fresh_table m)"
  by (auto simp add: grid_ok_def fresh_table_def build_cells_def)

lemma fresh_fields [simp]:
  "num_rows (fresh_table m) = num_rows m" "num_cols (fresh_table m) = num_cols m"
  "in_grid (fresh_table m) = in_grid m"
  by (simp_all add: fresh_table_def in_grid_def fun_eq_iff)

lemma cell_at_fresh:
  assumes "in_grid m a b"
  shows "cell_at (fresh_table m) a b =
     new_cell (x1 m + b * cell_size_x m) (y1 m + a * cell_size_y m)
       (x1 m + (b + 1) * cell_size_x m) (y1 m + (a + 1) * cell_size_y m)"
proof -
  from assms have a: "nat a < nat (num_rows m)" "int (nat a) = a"
    and b: "nat b < nat (num_cols m)" "int (nat b) = b"
    by (simp_all add: in_grid_def)
  have "build_cells m ! nat a = build_row m a"
    using a by (simp add: build_cells_def nth_py_range)
  moreover have "build_row m a ! nat b =
     new_cell (x1 m + b * cell_size_x m) (y1 m + a * cell_size_y m)
       (x1 m + (b + 1) * cell_size_x m) (y1 m + (a + 1) * cell_size_y m)"
    using b by (simp add: build_row_def Let_def nth_py_range)
  ultimately show ?thesis by (simp add: cell_at_def fresh_table_def)
qed

lemma break_entrance_and_exit_ok:
  assumes "1 \<le> num_rows m" "1 \<le> num_cols m"
  shows "break_entrance_and_exit (fresh_table m) = Inr (with_openings m)"
proof -
  have g0: "in_grid (fresh_table m) 0 0" using assms by (simp add: in_grid_def)
  let ?m1 = "upd (fresh_table m) 0 0 (\<lambda>c. c\<lparr>has_top_wall := False\<rparr>)"
  have u1: "update_cell (fresh_table m) 0 0 (\<lambda>c. c\<lparr>has_top_wall := False\<rparr>) = Inr ?m1"
    using grid_ok_fresh g0 by (rule update_cell_ok)
  have ok1: "grid_ok ?m1" using grid_ok_fresh by (rule grid_ok_upd)
  have g1: "in_grid ?m1 (num_rows m - 1) (num_cols m - 1)" using assms by (simp add: in_grid_def)
  have "update_cell ?m1 (num_rows m - 1) (num_cols m - 1) (\<lambda>c. c\<lparr>has_bottom_wall := False\<rparr>)
      = Inr (with_openings m)"
    unfolding with_openings_def using ok1 g1 by (rule update_cell_ok)
  then show ?thesis using u1 by (simp add: break_entrance_and_exit_def)
qed

lemma grid_ok_with_openings [simp]: "grid_ok (with_openings m)"
  by (simp add: with_openings_def grid_ok_upd)

lemma with_openings_fields [simp]:
  "num_rows (with_openings m) = num_rows m" "num_cols (with_openings m) = num_cols m"
  "in_grid (with_openings m) = in_grid m"
  by (simp_all add: with_openings_def fun_eq_iff)

lemma cell_at_with_openings:
  assumes r: "1 \<le> num_rows m" and c: "1 \<le> num_cols m" and ab: "in_grid m a b"
  shows "cell_at (with_openings m) a b =
     (if a = num_rows m - 1 \<and> b = num_cols m - 1 then
        (if a = 0 \<and> b = 0 then (cell_at (fresh_table m) a b)\<lparr>has_top_wall := False, has_bottom_wall := False\<rparr>
         else (cell_at (fresh_table m) a b)\<lparr>has_bottom_wall := False\<rparr>)
      else if a = 0 \<and> b = 0 then (cell_at (fresh_table m) a b)\<lparr>has_top_wall := False\<rparr>
      else cell_at (fresh_table m) a b)"
proof -
  let ?f = "fresh_table m"
  let ?m1 = "upd ?f 0 0 (\<lambda>c. c\<lparr>has_top_wall := False\<rparr>)"
  have g0: "in_grid ?f 0 0" using r c by (simp add: in_grid_def)
  have gl: "in_grid ?f (num_rows m - 1) (num_cols m - 1)" using r c by (simp add: in_grid_def)
  have ab': "in_grid ?f a b" using ab by simp
  have ok1: "grid_ok ?m1" using grid_ok_fresh by (rule grid_ok_upd)
  have inner: "cell_at ?m1 x y = (if x = 0 \<and> y = 0 then (cell_at ?f 0 0)\<lparr>has_top_wall := False\<rparr>
      else cell_at ?f x y)" if "in_grid ?f x y" for x y
    using grid_ok_fresh g0 that by (rule cell_at_upd)
  have outer: "cell_at (with_openings m) a b =
      (if a = num_rows m - 1 \<and> b = num_cols m - 1
       then (cell_at ?m1 (num_rows m - 1) (num_cols m - 1))\<lparr>has_bottom_wall := False\<rparr>
       else cell_at ?m1 a b)"
    unfolding with_openings_def using ok1 gl ab' by (intro cell_at_upd) simp_all
  show ?thesis
    using outer inner [OF ab'] inner [OF gl] by auto
qed

lemma all_unvisited_fields [simp]:
  "num_rows (all_unvisited m) = num_rows m" "num_cols (all_unvisited m) = num_cols m"
  "in_grid (all_unvisited m) = in_grid m" "carved (all_unvisited m) = carved m"
  "canvas (all_unvisited m) = canvas m" "frames (all_unvisited m) = frames m"
  by (simp_all add: all_unvisited_def in_grid_def fun_eq_iff)

lemma cell_at_all_unvisited:
  assumes ok: "grid_ok m" and ab: "in_grid m a b"
  shows "cell_at (all_unvisited m) a b = (cell_at m a b)\<lparr>visited := False\<rparr>"
proof -
  from ab ok have a: "nat a < length (cells m)" by (simp add: in_grid_def grid_ok_def)
  have "nat b < length (cells m ! nat a)"
    using ab grid_ok_row [OF ok, of a] by (simp add: in_grid_def)
  with a show ?thesis by (simp add: cell_at_def all_unvisited_def)
qed

lemma create_cells_ok:
  assumes r: "1 \<le> num_rows m" and c: "1 \<le> num_cols m"
  shows "create_cells n m =
     (case break_walls_r n (with_openings m) 0 0 of
        None \<Rightarrow> None
      | Some (Inl e) \<Rightarrow> Some (Inl e)
      | Some (Inr m2) \<Rightarrow> Some (Inr (all_unvisited m2)))"
proof (cases "break_walls_r n (with_openings m) 0 0")
  case None
  then show ?thesis
    using break_entrance_and_exit_ok [OF r c] by (simp add: create_cells_def fresh_table_def)
next
  case (Some res)
  show ?thesis
  proof (cases res)
    case (Inl e)
    with Some show ?thesis
      using break_entrance_and_exit_ok [OF r c] by (simp add: create_cells_def fresh_table_def)
  next
    case (Inr m2)
    with Some have "table_rel carved_cell (with_openings m) m2"
      using break_walls_rel [of n "with_openings m" 0 0 m2] by blast
    then have "grid_ok m2" using grid_ok_with_openings by (rule table_rel_ok(1))
    then have "reset_cells_visited m2 = Inr (all_unvisited m2)" by (rule reset_cells_visited_ok)
    with Some Inr show ?thesis
      using break_entrance_and_exit_ok [OF r c] by (simp add: create_cells_def fresh_table_def)
  qed
qed

lemma generation_returns:
  assumes r: "1 \<le> num_rows m" and c: "1 \<le> num_cols m"
    and n: "2 * (nat (num_rows m) * nat (num_cols m)) + 2 \<le> n"
  shows "\<exists>m2. break_walls_r n (with_openings m) 0 0 = Some (Inr m2) \<and>
           create_cells n m = Some (Inr (all_unvisited m2))"
proof -
  have g: "in_grid (with_openings m) 0 0" using r c by (simp add: in_grid_def)
  have "card (unvisited (with_openings m)) \<le> nat (num_rows m) * nat (num_cols m)"
    using card_unvisited_le [of "with_openings m"] by simp
  then have "2 * card (unvisited (with_openings m)) + 2 \<le> n" using n by simp
  with grid_ok_with_openings g
  obtain m2 where "break_walls_r n (with_openings m) 0 0 = Some (Inr m2)"
    using break_walls_r_returns by blast
  then show ?thesis using create_cells_ok [OF r c, of n] by simp
qed

lemma solve_for_ConsE:
  assumes run: "solve_for rec m c ((ti, tj, w) # rest) = Some (Inr (b, m'))"
  obtains (skip) "solve_for rec m c rest = Some (Inr (b, m'))"
  | (found) nc where "get_cell m ti tj = Inr nc"
      and "rec (m\<lparr>canvas := canvas m @ [draw_move c nc False]\<rparr>) ti tj = Some (Inr (True, m'))"
      and "b"
  | (retreat) nc m1 where "get_cell m ti tj = Inr nc"
      and "rec (m\<lparr>canvas := canvas m @ [draw_move c nc False]\<rparr>) ti tj = Some (Inr (False, m1))"
      and "solve_for rec (m1\<lparr>canvas := canvas m1 @ [draw_move c nc True]\<rparr>) c rest = Some (Inr (b, m'))"
proof (cases "ti < 0 \<or> tj < 0")
  case True
  with run have "solve_for rec m c rest = Some (Inr (b, m'))" by simp
  then show ?thesis by (rule skip)
next
  case low: False
  show ?thesis
  proof (cases "ti \<ge> num_rows m \<or> tj \<ge> num_cols m")
  case True
  with run low have "solve_for rec m c rest = Some (Inr (b, m'))" by simp
  then show ?thesis by (rule skip)
  next
  case high: False
  note inr = low high
  show ?thesis
  proof (cases "get_cell m ti tj")
    case (Inl e)
    with run inr show ?thesis by simp
  next
    case nc: (Inr nc)
    show ?thesis
    proof (cases "\<not> visited nc \<and> \<not> w")
      case False
      with run inr nc have "solve_for rec m c rest = Some (Inr (b, m'))"
        by (cases "visited nc") simp_all
      then show ?thesis by (rule skip)
    next
      case mv: True
      let ?m0 = "m\<lparr>canvas := canvas m @ [draw_move c nc False]\<rparr>"
      show ?thesis
      proof (cases "rec ?m0 ti tj")
        case None
        with run inr nc mv show ?thesis by simp
      next
        case (Some res)
        show ?thesis
        proof (cases res)
          case (Inl e)
          with run inr nc mv Some show ?thesis by simp
        next
          case (Inr p)
          obtain f m1 where p: "p = (f, m1)" by (cases p)
          show ?thesis
          proof (cases f)
            case True
            with run inr nc mv Some Inr p have "b" "m' = m1" by simp_all
            with Some Inr p True nc show ?thesis by (intro found [of nc]) simp_all
          next
            case False
            with run inr nc mv Some Inr p
            have "solve_for rec (m1\<lparr>canvas := canvas m1 @ [draw_move c nc True]\<rparr>) c rest
                = Some (Inr (b, m'))" by simp
            with Some Inr p False nc show ?thesis by (intro retreat [of nc m1]) simp_all
          qed
        qed
      qed
    qed
  qed
  qed
qed

lemma solve_for_rel:
  assumes rec: "\<And>m i j b m'. rec m i j = Some (Inr (b, m')) \<Longrightarrow> table_rel marked_cell m m'"
  shows "solve_for rec m c ts = Some (Inr (b, m')) \<Longrightarrow> table_rel marked_cell m m'"
proof (induction ts arbitrary: m)
  case Nil
  then have "m' = m" by simp
  then show ?case using table_rel_refl [of marked_cell m, OF marked_cell_refl] by simp
next
  case (Cons t ts)
  obtain ti tj w where t: "t = (ti, tj, w)" by (cases t)
  from Cons.prems [unfolded t] show ?case
  proof (cases rule: solve_for_ConsE)
    case skip
    then show ?thesis by (rule Cons.IH)
  next
    case (found nc)
    from rec [OF found(2)] show ?thesis by (simp add: table_rel_fields)
  next
    case (retreat nc m1)
    from rec [OF retreat(2)] have a: "table_rel marked_cell m m1" by (simp add: table_rel_fields)
    from Cons.IH [OF retreat(3)] have b: "table_rel marked_cell m1 m'" by (simp add: table_rel_fields)
    from a b show ?thesis by (rule marked_rel_trans)
  qed
qed

lemma solve_r_rel: "solve_r n m i j = Some (Inr (b, m')) \<Longrightarrow> table_rel marked_cell m m'"
proof (induction n arbitrary: m i j b m')
  case 0
  then show ?case by simp
next
  case (Suc n)
  let ?f = "\<lambda>c. c\<lparr>visited := True\<rparr>"
  show ?case
  proof (cases "update_cell (animate m) i j ?f")
    case (Inl e)
    with Suc.prems show ?thesis by simp
  next
    case m1: (Inr m1)
    have "table_rel marked_cell (animate m) m1"
      using update_cell_rel [of marked_cell ?f, OF marked_cell_refl _ m1]
      by (simp add: marked_cell_def)
    then have a: "table_rel marked_cell m m1" by (simp add: animate_def table_rel_fields)
    show ?thesis
    proof (cases "get_cell m1 i j")
      case (Inl e)
      with Suc.prems m1 show ?thesis by simp
    next
      case this_cell: (Inr this_cell)
      show ?thesis
      proof (cases "i = num_rows m1 - 1 \<and> j = num_cols m1 - 1")
        case True
        with Suc.prems m1 this_cell have "m' = m1" by simp
        with a show ?thesis by simp
      next
        case False
        with Suc.prems m1 this_cell
        have "solve_for (solve_r n) m1 this_cell
                   [(i - 1, j, has_top_wall this_cell),
                    (i + 1, j, has_bottom_wall this_cell),
                    (i, j - 1, has_left_wall this_cell),
                    (i, j + 1, has_right_wall this_cell)] = Some (Inr (b, m'))"
          by simp
        then have "table_rel marked_cell m1 m'"
          by (rule solve_for_rel [rotated]) (rule Suc.IH)
        with a show ?thesis by (rule marked_rel_trans)
      qed
    qed
  qed
qed

lemma own_walls_eq:
  "own_walls c i j =
     [(i - 1, j, has_top_wall c), (i + 1, j, has_bottom_wall c),
      (i, j - 1, has_left_wall c), (i, j + 1, has_right_wall c)]"
  by (simp add: own_walls_def neighbors_def wall_toward_def)

lemma grid_ok_animate [simp]: "grid_ok (animate m) = grid_ok m"
  by (simp add: animate_def)

lemma in_grid_animate [simp]: "in_grid (animate m) = in_grid m"
  by (simp add: animate_def)

lemma cell_at_animate [simp]: "cell_at (animate m) = cell_at m"
  by (simp add: animate_def)

lemma grid_ok_entered [simp]: "grid_ok m \<Longrightarrow> grid_ok (entered m i j)"
  by (simp add: entered_def)

lemma in_grid_entered [simp]: "in_grid (entered m i j) = in_grid m"
  by (simp add: entered_def)

lemma entered_dims [simp]:
  "num_rows (entered m i j) = num_rows m" "num_cols (entered m i j) = num_cols m"
  by (simp_all add: entered_def mark_def animate_def)

lemma cell_at_entered:
  "grid_ok m \<Longrightarrow> in_grid m i j \<Longrightarrow> in_grid m a b \<Longrightarrow>
   cell_at (entered m i j) a b =
     (if a = i \<and> b = j then (cell_at m i j)\<lparr>visited := True\<rparr> else cell_at m a b)"
  using cell_at_mark [of "animate m" i j a b] by (simp add: entered_def)

lemma wall_toward_visited [simp]: "wall_toward (c\<lparr>visited := v\<rparr>) i j ti tj = wall_toward c i j ti tj"
  by (simp add: wall_toward_def)

lemma solve_r_Suc_ok:
  assumes ok: "grid_ok m" and c: "in_grid m i j"
  shows "solve_r (Suc n) m i j =
     (if at_exit m i j then Some (Inr (True, entered m i j))
      else solve_for (solve_r n) (entered m i j) (cell_at (entered m i j) i j)
             (own_walls (cell_at (entered m i j) i j) i j))"
proof -
  have u: "update_cell (animate m) i j (\<lambda>c. c\<lparr>visited := True\<rparr>) = Inr (entered m i j)"
    unfolding entered_def mark_def using ok c by (intro update_cell_ok) simp_all
  have g: "get_cell (entered m i j) i j = Inr (cell_at (entered m i j) i j)"
    using ok c by (intro get_cell_ok) simp_all
  show ?thesis by (simp add: u g at_exit_def own_walls_eq)
qed

lemma solve_for_skip_ok:
  assumes ok: "grid_ok m" and no: "\<not> (in_grid m ti tj \<and> \<not> visited (cell_at m ti tj) \<and> \<not> w)"
  shows "solve_for rec m c ((ti, tj, w) # rest) = solve_for rec m c rest"
proof (cases "in_grid m ti tj")
  case True
  with no get_cell_ok [OF ok True] show ?thesis by (auto simp add: in_grid_def)
next
  case False
  then show ?thesis by (auto simp add: in_grid_def)
qed

lemma solve_for_move_ok:
  assumes ok: "grid_ok m" and g: "in_grid m ti tj" and v: "\<not> visited (cell_at m ti tj)" and w: "\<not> w"
  shows "solve_for rec m c ((ti, tj, w) # rest) =
     (case rec (m\<lparr>canvas := canvas m @ [draw_move c (cell_at m ti tj) False]\<rparr>) ti tj of
        None \<Rightarrow> None
      | Some (Inl e) \<Rightarrow> Some (Inl e)
      | Some (Inr (found, m')) \<Rightarrow>
          if \<not> found then
            solve_for rec (m'\<lparr>canvas := canvas m' @ [draw_move c (cell_at m ti tj) True]\<rparr>) c rest
          else Some (Inr (True, m')))"
proof -
  from g have "\<not> (ti < 0 \<or> tj < 0)" "\<not> (ti \<ge> num_rows m \<or> tj \<ge> num_cols m)"
    by (simp_all add: in_grid_def)
  then show ?thesis using v w by (simp add: get_cell_ok [OF ok g])
qed

lemma solve_for_blocked:
  assumes ok: "grid_ok m"
    and blocked: "\<forall>(ti, tj, w) \<in> set ts. in_grid m ti tj \<longrightarrow> \<not> visited (cell_at m ti tj) \<longrightarrow> w"
  shows "solve_for rec m c ts = Some (Inr (False, m))"
  using blocked
proof (induction ts)
  case Nil
  show ?case by simp
next
  case (Cons t ts)
  obtain ti tj w where t: "t = (ti, tj, w)" by (cases t)
  from Cons.prems t have "\<not> (in_grid m ti tj \<and> \<not> visited (cell_at m ti tj) \<and> \<not> w)" by auto
  then have "solve_for rec m c (t # ts) = solve_for rec m c ts"
    unfolding t using ok by (intro solve_for_skip_ok) simp_all
  moreover from Cons.prems have "solve_for rec m c ts = Some (Inr (False, m))"
    by (intro Cons.IH) simp
  ultimately show ?case by simp
qed

lemma visited_set_fields [simp]:
  "visited_set (m\<lparr>canvas := cv\<rparr>) = visited_set m" "visited_set (m\<lparr>frames := fr\<rparr>) = visited_set m"
  by (simp_all add: visited_set_def)

lemma unvisited_fields [simp]:
  "unvisited (m\<lparr>canvas := cv\<rparr>) = unvisited m" "unvisited (m\<lparr>frames := fr\<rparr>) = unvisited m"
  by (simp_all add: unvisited_def)

lemma can_step_fields [simp]:
  "can_step (m\<lparr>canvas := cv\<rparr>) = can_step m" "can_step (m\<lparr>frames := fr\<rparr>) = can_step m"
  by (simp_all add: can_step_def fun_eq_iff)

lemma at_exit_fields [simp]:
  "at_exit (m\<lparr>canvas := cv\<rparr>) = at_exit m" "at_exit (m\<lparr>frames := fr\<rparr>) = at_exit m"
  by (simp_all add: at_exit_def fun_eq_iff)

lemma explored_fields [simp]:
  "explored (m\<lparr>canvas := cv\<rparr>) m' = explored m m'"
  "explored m (m'\<lparr>canvas := cv\<rparr>) = explored m m'"
  by (simp_all add: explored_def)

lemma marked_rel_facts:
  assumes rel: "table_rel marked_cell m m'" and ok: "grid_ok m"
  shows "grid_ok m'" and "in_grid m' = in_grid m" and "at_exit m' = at_exit m"
    and "can_step m' = can_step m" and "visited_set m \<subseteq> visited_set m'"
    and "unvisited m' \<subseteq> unvisited m"
proof -
  show ok': "grid_ok m'" using rel ok by (rule table_rel_ok(1))
  show g: "in_grid m' = in_grid m" using rel ok by (rule table_rel_ok(2))
  from rel have "num_rows m' = num_rows m" "num_cols m' = num_cols m"
    by (simp_all add: table_rel_def same_shape_def)
  then show "at_exit m' = at_exit m" by (simp add: at_exit_def fun_eq_iff)
  have cellrel: "marked_cell (cell_at m a b) (cell_at m' a b)" if "in_grid m a b" for a b
    using rel ok that by (rule table_rel_ok(3))
  have w: "wall_toward (cell_at m' a b) a b x y = wall_toward (cell_at m a b) a b x y"
    if "in_grid m a b" for a b x y
    using cellrel [OF that] unfolding marked_cell_def by (elim disjE) simp_all
  show "can_step m' = can_step m"
    unfolding can_step_def fun_eq_iff g using w by blast
  have v: "visited (cell_at m' a b)" if "in_grid m a b" "visited (cell_at m a b)" for a b
    using cellrel [OF that(1)] that(2) unfolding marked_cell_def by (elim disjE) simp_all
  show "visited_set m \<subseteq> visited_set m'"
    unfolding visited_set_def g using v by blast
  show "unvisited m' \<subseteq> unvisited m"
    unfolding unvisited_def g using v by blast
qed

lemma visited_set_entered:
  "grid_ok m \<Longrightarrow> in_grid m i j \<Longrightarrow> visited_set (entered m i j) = insert (i, j) (visited_set m)"
  using visited_set_mark [of "animate m" i j] by (simp add: entered_def animate_def)

lemma unvisited_entered:
  "grid_ok m \<Longrightarrow> in_grid m i j \<Longrightarrow> unvisited (entered m i j) = unvisited m - {(i, j)}"
  using unvisited_mark [of "animate m" i j] by (simp add: entered_def animate_def)

lemma at_exit_entered [simp]: "at_exit (entered m i j) = at_exit m"
  by (simp add: at_exit_def fun_eq_iff)

lemma can_step_entered:
  assumes ok: "grid_ok m" and c: "in_grid m i j"
  shows "can_step (entered m i j) = can_step m"
proof -
  have "wall_toward (cell_at (entered m i j) a b) a b x y = wall_toward (cell_at m a b) a b x y"
    if "in_grid m a b" for a b x y
    using cell_at_entered [OF ok c that] by (cases "a = i \<and> b = j") auto
  then show ?thesis unfolding can_step_def fun_eq_iff by auto
qed

lemma explored_trans:
  assumes ok: "grid_ok m" and r1: "table_rel marked_cell m m1" and r2: "table_rel marked_cell m1 m2"
    and e1: "explored m m1" and e2: "explored m1 m2"
  shows "explored m m2"
proof -
  note f1 = marked_rel_facts [OF r1 ok]
  note f2 = marked_rel_facts [OF r2 f1(1)]
  show ?thesis
    unfolding explored_def
  proof (intro ballI)
    fix p assume p: "p \<in> visited_set m2 - visited_set m"
    show "\<not> at_exit m (fst p) (snd p) \<and> (\<forall>q. can_step m p q \<longrightarrow> q \<in> visited_set m2)"
    proof (cases "p \<in> visited_set m1")
      case True
      with p have "p \<in> visited_set m1 - visited_set m" by simp
      with e1 have "\<not> at_exit m (fst p) (snd p)" "\<forall>q. can_step m p q \<longrightarrow> q \<in> visited_set m1"
        unfolding explored_def by blast+
      then show ?thesis using f2(5) by blast
    next
      case False
      with p have "p \<in> visited_set m2 - visited_set m1" by simp
      with e2 have "\<not> at_exit m1 (fst p) (snd p)" "\<forall>q. can_step m1 p q \<longrightarrow> q \<in> visited_set m2"
        unfolding explored_def by blast+
      then show ?thesis using f1(3,4) by simp
    qed
  qed
qed

lemma explored_refl: "explored m m"
  by (simp add: explored_def)

lemma solve_for_explored:
  assumes rec_rel: "\<And>m x y b m'. rec m x y = Some (Inr (b, m')) \<Longrightarrow> table_rel marked_cell m m'"
    and rec_post: "\<And>m x y m'. grid_ok m \<Longrightarrow> in_grid m x y \<Longrightarrow> rec m x y = Some (Inr (False, m')) \<Longrightarrow>
        explored m m' \<and> (x, y) \<in> visited_set m'"
  shows "grid_ok m \<Longrightarrow> solve_for rec m c ts = Some (Inr (False, m')) \<Longrightarrow>
     explored m m' \<and> (\<forall>(ti, tj, w) \<in> set ts. in_grid m ti tj \<longrightarrow> \<not> w \<longrightarrow> (ti, tj) \<in> visited_set m')"
proof (induction ts arbitrary: m)
  case Nil
  then have "m' = m" by simp
  then show ?case by (simp add: explored_refl)
next
  case (Cons t ts)
  obtain ti tj w where t: "t = (ti, tj, w)" by (cases t)
  note ok = Cons.prems(1)
  have whole: "table_rel marked_cell m m'"
    using rec_rel Cons.prems(2) by (rule solve_for_rel)
  note fw = marked_rel_facts [OF whole ok]
  show ?case
  proof (cases "in_grid m ti tj \<and> \<not> visited (cell_at m ti tj) \<and> \<not> w")
    case False
    then have "solve_for rec m c (t # ts) = solve_for rec m c ts"
      unfolding t using ok by (intro solve_for_skip_ok) simp_all
    with Cons.prems(2) have run: "solve_for rec m c ts = Some (Inr (False, m'))" by simp
    from Cons.IH [OF ok run] have e: "explored m m'"
      and r: "\<forall>(ti, tj, w) \<in> set ts. in_grid m ti tj \<longrightarrow> \<not> w \<longrightarrow> (ti, tj) \<in> visited_set m'"
      by simp_all
    have "(ti, tj) \<in> visited_set m'" if "in_grid m ti tj" "\<not> w"
    proof -
      from False that have "(ti, tj) \<in> visited_set m" by (simp add: visited_set_def)
      with fw(5) show ?thesis by blast
    qed
    with e r show ?thesis unfolding t by simp
  next
    case True
    then have g: "in_grid m ti tj" and v: "\<not> visited (cell_at m ti tj)" and w: "\<not> w" by simp_all
    let ?m0 = "m\<lparr>canvas := canvas m @ [draw_move c (cell_at m ti tj) False]\<rparr>"
    note eq = solve_for_move_ok [OF ok g v w, of rec c ts]
    from Cons.prems(2) [unfolded t eq]
    obtain m1 where rc: "rec ?m0 ti tj = Some (Inr (False, m1))"
      and run: "solve_for rec (m1\<lparr>canvas := canvas m1 @ [draw_move c (cell_at m ti tj) True]\<rparr>) c ts
          = Some (Inr (False, m'))"
      by (cases "rec ?m0 ti tj") (auto split: sum.splits if_splits)
    let ?m1 = "m1\<lparr>canvas := canvas m1 @ [draw_move c (cell_at m ti tj) True]\<rparr>"
    have ok0: "grid_ok ?m0" using ok by simp
    have g0: "in_grid ?m0 ti tj" using g by simp
    from rec_post [OF ok0 g0 rc] have e1: "explored m m1" and in1: "(ti, tj) \<in> visited_set m1"
      by simp_all
    have r1: "table_rel marked_cell m m1" using rec_rel [OF rc] by (simp add: table_rel_fields)
    note f1 = marked_rel_facts [OF r1 ok]
    have ok1: "grid_ok ?m1" using f1(1) by simp
    from Cons.IH [OF ok1 run] have e2: "explored m1 m'"
      and r: "\<forall>(ti, tj, w) \<in> set ts. in_grid m1 ti tj \<longrightarrow> \<not> w \<longrightarrow> (ti, tj) \<in> visited_set m'"
      by simp_all
    have r2: "table_rel marked_cell m1 m'"
      using solve_for_rel [of rec ?m1 c ts False m', OF rec_rel run] by (simp add: table_rel_fields)
    note f2 = marked_rel_facts [OF r2 f1(1)]
    have "explored m m'" using ok r1 r2 e1 e2 by (rule explored_trans)
    moreover have "(ti, tj) \<in> visited_set m'" using in1 f2(5) by blast
    moreover have "\<forall>(ti, tj, w) \<in> set ts. in_grid m ti tj \<longrightarrow> \<not> w \<longrightarrow> (ti, tj) \<in> visited_set m'"
      using r f1(2) by simp
    ultimately show ?thesis unfolding t by simp
  qed
qed

lemma solve_r_explored:
  "grid_ok m \<Longrightarrow> in_grid m i j \<Longrightarrow> solve_r n m i j = Some (Inr (False, m')) \<Longrightarrow>
   (explored m m' \<and> (i, j) \<in> visited_set m') \<and>
   \<not> at_exit m i j \<and> (\<forall>q. can_step m (i, j) q \<longrightarrow> q \<in> visited_set m')"
proof (induction n arbitrary: m i j m')
  case 0
  then show ?case by simp
next
  case (Suc n)
  note ok = Suc.prems(1) and c = Suc.prems(2)
  let ?e = "entered m i j"
  let ?c = "cell_at ?e i j"
  from Suc.prems(3) [unfolded solve_r_Suc_ok [OF ok c]] have nx: "\<not> at_exit m i j"
    and run: "solve_for (solve_r n) ?e ?c (own_walls ?c i j) = Some (Inr (False, m'))"
    by (simp_all split: if_splits)
  have oke: "grid_ok ?e" using ok by simp
  have post: "explored ?e m' \<and>
      (\<forall>(ti, tj, w) \<in> set (own_walls ?c i j). in_grid ?e ti tj \<longrightarrow> \<not> w \<longrightarrow> (ti, tj) \<in> visited_set m')"
    using oke run
  proof (rule solve_for_explored [rotated 2])
    show "table_rel marked_cell ma mb" if "solve_r n ma x y = Some (Inr (b, mb))" for ma x y b mb
      using that by (rule solve_r_rel)
  next
    fix m x y m' assume "grid_ok m" "in_grid m x y" "solve_r n m x y = Some (Inr (False, m'))"
    then show "explored m m' \<and> (x, y) \<in> visited_set m'" using Suc.IH by blast
  qed
  have rel: "table_rel marked_cell ?e m'"
    using solve_for_rel [of "solve_r n" ?e ?c _ False m', OF solve_r_rel run] .
  note fe = marked_rel_facts [OF rel oke]
  have ve: "visited_set ?e = insert (i, j) (visited_set m)" using ok c by (rule visited_set_entered)
  have cse: "can_step ?e = can_step m" using ok c by (rule can_step_entered)
  have here: "(i, j) \<in> visited_set m'" using ve fe(5) by blast
  have own: "wall_toward ?c i j x y = wall_toward (cell_at m i j) i j x y" for x y
    using cell_at_entered [OF ok c c] by simp
  have nbrs: "q \<in> visited_set m'" if q: "can_step m (i, j) q" for q
  proof -
    obtain x y where xy: "q = (x, y)" by (cases q)
    from q xy have "(x, y) \<in> set (neighbors i j)" "in_grid m x y"
      "\<not> wall_toward (cell_at m i j) i j x y"
      by (simp_all add: can_step_def)
    then have nb: "(x, y) \<in> set (neighbors i j)" and "in_grid ?e x y"
      and "\<not> wall_toward ?c i j x y"
      by (simp_all add: own)
    moreover from nb have "(x, y, wall_toward ?c i j x y) \<in> set (own_walls ?c i j)"
      unfolding own_walls_def set_map by (rule image_eqI [rotated]) simp
    ultimately have "(x, y, wall_toward ?c i j x y) \<in> set (own_walls ?c i j)" "in_grid ?e x y"
      "\<not> wall_toward ?c i j x y"
      by simp_all
    with post show ?thesis unfolding xy by blast
  qed
  have "explored m m'"
    unfolding explored_def
  proof (intro ballI)
    fix p assume p: "p \<in> visited_set m' - visited_set m"
    show "\<not> at_exit m (fst p) (snd p) \<and> (\<forall>q. can_step m p q \<longrightarrow> q \<in> visited_set m')"
    proof (cases "p = (i, j)")
      case True
      then show ?thesis using nx nbrs by simp
    next
      case False
      with p ve have "p \<in> visited_set m' - visited_set ?e" by simp
      with post have "\<not> at_exit ?e (fst p) (snd p)" "\<forall>q. can_step ?e p q \<longrightarrow> q \<in> visited_set m'"
        unfolding explored_def by blast+
      then show ?thesis using cse by simp
    qed
  qed
  then show ?case using here nx nbrs by blast
qed

lemma mirror_sided_solve:
  "map_option (map_sum id (apsnd visited_table)) (solve 2 mirror_sided) = Some (Inr (False, [[True, False]]))"
  by code_simp

lemma dead_end_solve:
  "map_option (map_sum id (apsnd visited_table)) (solve 3 dead_end) =
     Some (Inr (False, [[True, True, False]]))"
  by code_simp

lemma solve_r_blocked:
  assumes ok: "grid_ok m" and c: "in_grid m i j" and nx: "\<not> at_exit m i j"
    and blocked: "\<forall>(ti, tj) \<in> set (neighbors i j).
        in_grid m ti tj \<longrightarrow> \<not> visited (cell_at m ti tj) \<longrightarrow> wall_toward (cell_at m i j) i j ti tj"
  shows "solve_r (Suc n) m i j = Some (Inr (False, entered m i j))"
proof -
  let ?e = "entered m i j"
  let ?c = "cell_at ?e i j"
  have own: "wall_toward ?c i j x y = wall_toward (cell_at m i j) i j x y" for x y
    using cell_at_entered [OF ok c c] by simp
  have "\<forall>(ti, tj, w) \<in> set (own_walls ?c i j). in_grid ?e ti tj \<longrightarrow> \<not> visited (cell_at ?e ti tj) \<longrightarrow> w"
  proof (clarify)
    fix ti tj w
    assume t: "(ti, tj, w) \<in> set (own_walls ?c i j)" and g: "in_grid ?e ti tj"
      and v: "\<not> visited (cell_at ?e ti tj)"
    from t have nb: "(ti, tj) \<in> set (neighbors i j)" and w: "w = wall_toward (cell_at m i j) i j ti tj"
      by (auto simp add: own_walls_def own)
    from g have g': "in_grid m ti tj" by simp
    from v cell_at_entered [OF ok c g'] have "\<not> visited (cell_at m ti tj)"
      by (cases "ti = i \<and> tj = j") auto
    with blocked nb g' w show "w" by blast
  qed
  then have "solve_for (solve_r n) ?e ?c (own_walls ?c i j) = Some (Inr (False, ?e))"
    using ok by (intro solve_for_blocked) simp_all
  then show ?thesis using nx by (simp only: solve_r_Suc_ok [OF ok c] if_False)
qed

lemma solve_r_open:
  assumes ok: "grid_ok m" and c: "in_grid m i j"
    and nb: "(ti, tj) \<in> set (neighbors i j)" and g: "in_grid m ti tj"
    and w: "\<not> wall_toward (cell_at m i j) i j ti tj"
    and run: "solve_r k m i j = Some (Inr (False, m'))"
  shows "visited (cell_at m' ti tj)"
proof -
  have "can_step m (i, j) (ti, tj)" using c nb g w by (simp add: can_step_def)
  with solve_r_explored [OF ok c run] have "(ti, tj) \<in> visited_set m'" by blast
  then show ?thesis by (simp add: visited_set_def)
qed

text \<open>
  C10. Let \<open>(i, j)\<close> be a cell of a well-formed table other than the exit. Nothing below
  constrains the wall flags of the neighbours.
  \<^item> If the cell's own flag is set towards every neighbour that is in range and unvisited,
    \<open>solve_r\<close> marks the cell, enters no neighbour and returns false, even where the
    neighbour's flag on the opposite side is clear.
  \<^item> If the cell's own flag towards an in-range neighbour is clear, a call that returns false
    has the neighbour marked visited: the move into it was not held back by the
    neighbour's flag on the opposite side.
  \<^item> On \<open>one_sided\<close> (own flag clear, neighbour's flag set) the solver walks into the
    neighbour and returns true; on \<open>mirror_sided\<close> (own flag set, neighbour's flag clear)
    it stays and returns false; on \<open>dead_end\<close> it enters the middle cell through the
    one-sided opening and returns false.
\<close>

theorem solver_reads_own_wall_only:
  assumes "grid_ok m" and "in_grid m i j" and "\<not> at_exit m i j"
  shows "((\<forall>(ti, tj) \<in> set (neighbors i j).
            in_grid m ti tj \<longrightarrow> \<not> visited (cell_at m ti tj) \<longrightarrow>
            wall_toward (cell_at m i j) i j ti tj) \<longrightarrow>
          solve_r (Suc n) m i j = Some (Inr (False, entered m i j))) \<and>
         (\<forall>ti tj m'. (ti, tj) \<in> set (neighbors i j) \<longrightarrow> in_grid m ti tj \<longrightarrow>
            \<not> wall_toward (cell_at m i j) i j ti tj \<longrightarrow>
            solve_r k m i j = Some (Inr (False, m')) \<longrightarrow> visited (cell_at m' ti tj)) \<and>
         map_option (map_sum id (apsnd visited_table)) (solve 2 one_sided) =
           Some (Inr (True, [[True, True]])) \<and>
         map_option (map_sum id (apsnd visited_table)) (solve 2 mirror_sided) =
           Some (Inr (False, [[True, False]])) \<and>
         map_option (map_sum id (apsnd visited_table)) (solve 3 dead_end) =
           Some (Inr (False, [[True, True, False]]))"
  using solve_r_blocked [OF assms, of n] solve_r_open [OF assms(1,2), of _ _ k]
    one_sided_solve mirror_sided_solve dead_end_solve
  by blast

theorem solver_reads_own_wall_only_witness:
  "grid_ok mirror_sided \<and> in_grid mirror_sided 0 0 \<and> \<not> at_exit mirror_sided 0 0 \<and>
   has_right_wall (cell_at mirror_sided 0 0) \<and> \<not> has_left_wall (cell_at mirror_sided 0 1) \<and>
   solve_r (Suc 0) mirror_sided 0 0 = Some (Inr (False, entered mirror_sided 0 0)) \<and>
   grid_ok dead_end \<and> in_grid dead_end 0 0 \<and> \<not> at_exit dead_end 0 0 \<and>
   (0, 1) \<in> set (neighbors 0 0) \<and> in_grid dead_end 0 1 \<and>
   \<not> has_right_wall (cell_at dead_end 0 0) \<and> has_left_wall (cell_at dead_end 0 1) \<and>
   (\<exists>m'. solve_r 3 dead_end 0 0 = Some (Inr (False, m')) \<and> visited (cell_at m' 0 1))"
proof -
  have a1: "grid_ok mirror_sided" by (simp add: grid_ok_def mirror_sided_def maze_init_def)
  have a2: "in_grid mirror_sided 0 0" by (simp add: in_grid_def mirror_sided_def maze_init_def)
  have a3: "\<not> at_exit mirror_sided 0 0" by (simp add: at_exit_def mirror_sided_def maze_init_def)
  have a4: "has_right_wall (cell_at mirror_sided 0 0)" "\<not> has_left_wall (cell_at mirror_sided 0 1)"
    by (simp_all add: cell_at_def mirror_sided_def new_cell_def)
  have blocked: "\<forall>(ti, tj) \<in> set (neighbors 0 0).
      in_grid mirror_sided ti tj \<longrightarrow> \<not> visited (cell_at mirror_sided ti tj) \<longrightarrow>
      wall_toward (cell_at mirror_sided 0 0) 0 0 ti tj"
    using a4(1) by (simp add: neighbors_def in_grid_def wall_toward_def mirror_sided_def maze_init_def)
  have b1: "grid_ok dead_end" by (simp add: grid_ok_def dead_end_def maze_init_def)
  have b2: "in_grid dead_end 0 0" "in_grid dead_end 0 1"
    by (simp_all add: in_grid_def dead_end_def maze_init_def)
  have b3: "\<not> at_exit dead_end 0 0" by (simp add: at_exit_def dead_end_def maze_init_def)
  have b4: "(0, 1) \<in> set (neighbors 0 0)" by (simp add: neighbors_def)
  have b5: "\<not> has_right_wall (cell_at dead_end 0 0)" "has_left_wall (cell_at dead_end 0 1)"
    by (simp_all add: cell_at_def dead_end_def new_cell_def)
  then have b6: "\<not> wall_toward (cell_at dead_end 0 0) 0 0 0 1" by (simp add: wall_toward_def)
  obtain m' where run: "solve_r 3 dead_end 0 0 = Some (Inr (False, m'))"
    using dead_end_solve unfolding solve_def
    by (cases "solve_r 3 dead_end 0 0") (auto simp add: map_sum_def split: sum.splits)
  note mir = solver_reads_own_wall_only [OF a1 a2 a3, of 0 0]
  note dea = solver_reads_own_wall_only [OF b1 b2(1) b3, of 0 3]
  from mir blocked have c1: "solve_r (Suc 0) mirror_sided 0 0 = Some (Inr (False, entered mirror_sided 0 0))"
    by blast
  from dea b4 b2(2) b6 run have c2: "visited (cell_at m' 0 1)" by blast
  show ?thesis using a1 a2 a3 a4 b1 b2 b3 b4 b5 c1 c2 run by blast
qed

lemma frames_entered [simp]: "frames (entered m i j) = Suc (frames m)"
  by (simp add: entered_def mark_def animate_def)

lemma visited_unvisited_partition:
  "visited_set m \<union> unvisited m = positions m" "visited_set m \<inter> unvisited m = {}"
  by (auto simp add: visited_set_def unvisited_def in_grid_positions)

lemma card_visited_unvisited:
  "card (visited_set m) + card (unvisited m) = nat (num_rows m) * nat (num_cols m)"
proof -
  have "card (visited_set m \<union> unvisited m) = card (visited_set m) + card (unvisited m)"
    using finite_visited_set finite_unvisited visited_unvisited_partition(2)
    by (rule card_Un_disjoint)
  then show ?thesis by (simp add: visited_unvisited_partition(1) card_positions)
qed

lemma solve_for_returns:
  assumes rec_rel: "\<And>m x y b m'. rec m x y = Some (Inr (b, m')) \<Longrightarrow> table_rel marked_cell m m'"
    and rec_ret: "\<And>m x y. grid_ok m \<Longrightarrow> in_grid m x y \<Longrightarrow> (x, y) \<in> unvisited m \<Longrightarrow>
        card (unvisited m) \<le> n \<Longrightarrow>
        \<exists>b m'. rec m x y = Some (Inr (b, m')) \<and>
          frames m' + card (unvisited m') = frames m + card (unvisited m)"
  shows "grid_ok m \<Longrightarrow> card (unvisited m) \<le> n \<Longrightarrow>
     \<exists>b m'. solve_for rec m c ts = Some (Inr (b, m')) \<and>
       frames m' + card (unvisited m') = frames m + card (unvisited m)"
proof (induction ts arbitrary: m)
  case Nil
  show ?case by (intro exI [of _ False] exI [of _ m]) simp
next
  case (Cons t ts)
  obtain ti tj w where t: "t = (ti, tj, w)" by (cases t)
  note ok = Cons.prems(1)
  show ?case
  proof (cases "in_grid m ti tj \<and> \<not> visited (cell_at m ti tj) \<and> \<not> w")
    case False
    then have "solve_for rec m c (t # ts) = solve_for rec m c ts"
      unfolding t using ok by (intro solve_for_skip_ok) simp_all
    then show ?thesis using Cons.IH [OF Cons.prems] by simp
  next
    case True
    then have g: "in_grid m ti tj" and v: "\<not> visited (cell_at m ti tj)" and w: "\<not> w" by simp_all
    let ?m0 = "m\<lparr>canvas := canvas m @ [draw_move c (cell_at m ti tj) False]\<rparr>"
    note eq = solve_for_move_ok [OF ok g v w, of rec c ts]
    have ok0: "grid_ok ?m0" using ok by simp
    have g0: "in_grid ?m0 ti tj" using g by simp
    have u0: "(ti, tj) \<in> unvisited ?m0" using g v by (simp add: unvisited_def)
    have n0: "card (unvisited ?m0) \<le> n" using Cons.prems(2) by simp
    from rec_ret [OF ok0 g0 u0 n0] obtain b m1 where rc: "rec ?m0 ti tj = Some (Inr (b, m1))"
      and cnt1: "frames m1 + card (unvisited m1) = frames m + card (unvisited m)"
      by auto
    show ?thesis
    proof (cases b)
      case True
      with rc eq have "solve_for rec m c (t # ts) = Some (Inr (True, m1))" by (simp add: t)
      with cnt1 show ?thesis by blast
    next
      case False
      let ?m1 = "m1\<lparr>canvas := canvas m1 @ [draw_move c (cell_at m ti tj) True]\<rparr>"
      from False rc eq have step: "solve_for rec m c (t # ts) = solve_for rec ?m1 c ts"
        by (simp add: t)
      have r1: "table_rel marked_cell m m1" using rec_rel [OF rc] by (simp add: table_rel_fields)
      note f1 = marked_rel_facts [OF r1 ok]
      have ok1: "grid_ok ?m1" using f1(1) by simp
      have "card (unvisited m1) \<le> card (unvisited m)"
        using f1(6) finite_unvisited by (rule card_mono [rotated])
      then have n1: "card (unvisited ?m1) \<le> n" using Cons.prems(2) by simp
      from Cons.IH [OF ok1 n1] obtain b' m' where "solve_for rec ?m1 c ts = Some (Inr (b', m'))"
        and "frames m' + card (unvisited m') = frames ?m1 + card (unvisited ?m1)"
        by blast
      with step cnt1 show ?thesis by simp
    qed
  qed
qed

lemma solve_r_returns:
  "grid_ok m \<Longrightarrow> in_grid m i j \<Longrightarrow> (i, j) \<in> unvisited m \<Longrightarrow> card (unvisited m) \<le> n \<Longrightarrow>
   \<exists>b m'. solve_r n m i j = Some (Inr (b, m')) \<and>
     frames m' + card (unvisited m') = frames m + card (unvisited m)"
proof (induction n arbitrary: m i j)
  case 0
  then have "unvisited m = {}" using finite_unvisited [of m] by simp
  with 0(3) show ?case by simp
next
  case (Suc n)
  note ok = Suc.prems(1) and c = Suc.prems(2)
  let ?e = "entered m i j"
  let ?c = "cell_at ?e i j"
  have ue: "unvisited ?e = unvisited m - {(i, j)}" using ok c by (rule unvisited_entered)
  then have "card (unvisited ?e) = card (unvisited m) - 1"
    using Suc.prems(3) by (simp add: card_Diff_singleton)
  moreover have "0 < card (unvisited m)"
    using Suc.prems(3) finite_unvisited [of m] by (auto simp add: card_gt_0_iff)
  ultimately have ce: "Suc (card (unvisited ?e)) = card (unvisited m)" by simp
  then have cnt: "frames ?e + card (unvisited ?e) = frames m + card (unvisited m)" by simp
  show ?case
  proof (cases "at_exit m i j")
    case True
    then have "solve_r (Suc n) m i j = Some (Inr (True, ?e))"
      by (simp only: solve_r_Suc_ok [OF ok c] if_True)
    with cnt show ?thesis by blast
  next
    case False
    then have eq: "solve_r (Suc n) m i j = solve_for (solve_r n) ?e ?c (own_walls ?c i j)"
      by (simp only: solve_r_Suc_ok [OF ok c] if_False)
    have oke: "grid_ok ?e" using ok by simp
    have ne: "card (unvisited ?e) \<le> n" using ce Suc.prems(4) by simp
    have "\<exists>b m'. solve_for (solve_r n) ?e ?c (own_walls ?c i j) = Some (Inr (b, m')) \<and>
        frames m' + card (unvisited m') = frames ?e + card (unvisited ?e)"
      using oke ne
    proof (rule solve_for_returns [rotated 2])
      show "table_rel marked_cell ma mb" if "solve_r n ma x y = Some (Inr (b, mb))" for ma x y b mb
        using that by (rule solve_r_rel)
    next
      fix ma x y
      assume "grid_ok ma" "in_grid ma x y" "(x, y) \<in> unvisited ma" "card (unvisited ma) \<le> n"
      then show "\<exists>b m'. solve_r n ma x y = Some (Inr (b, m')) \<and>
          frames m' + card (unvisited m') = frames ma + card (unvisited ma)"
        by (rule Suc.IH)
    qed
    then obtain b m' where r: "solve_for (solve_r n) ?e ?c (own_walls ?c i j) = Some (Inr (b, m'))"
      and k: "frames m' + card (unvisited m') = frames ?e + card (unvisited ?e)"
      by blast
    have "solve_r (Suc n) m i j = Some (Inr (b, m'))" using eq r by (simp only:)
    moreover have "frames m' + card (unvisited m') = frames m + card (unvisited m)"
      using k cnt by (simp only:)
    ultimately show ?thesis by blast
  qed
qed

lemma no_visited_flags:
  assumes ok: "grid_ok m" and none: "\<forall>row\<in>set (cells m). \<forall>c\<in>set row. \<not> visited c"
  shows "visited_set m = {}"
proof -
  have "\<not> visited (cell_at m a b)" if g: "in_grid m a b" for a b
  proof -
    from g ok have a: "nat a < length (cells m)" by (simp add: in_grid_def grid_ok_def)
    have b: "nat b < length (cells m ! nat a)"
      using g grid_ok_row [OF ok, of a] by (simp add: in_grid_def)
    from a have "cells m ! nat a \<in> set (cells m)" by simp
    moreover from b have "cell_at m a b \<in> set (cells m ! nat a)" by (simp add: cell_at_def)
    ultimately show ?thesis using none by blast
  qed
  then show ?thesis by (auto simp add: visited_set_def)
qed

text \<open>
  C7. On a well-formed table with at least one row and one column and every visited flag
  false, \<open>solve\<close> returns whenever its fuel is at least \<open>num_rows * num_cols\<close>; no
  exception is raised. Each call of \<open>solve_r\<close> makes exactly one \<open>_animate\<close> call, so
  \<open>frames m' - frames m\<close> is the number of calls. That number equals the number of cells
  marked visited at the end, so no cell was entered twice, and it is at most
  \<open>num_rows * num_cols\<close>. Every cell is left as it was or with only its visited flag
  set: no flag is cleared on a failed branch.
\<close>

theorem solver_terminates:
  assumes "grid_ok m" and "1 \<le> num_rows m" and "1 \<le> num_cols m"
    and "\<forall>row\<in>set (cells m). \<forall>c\<in>set row. \<not> visited c"
    and "nat (num_rows m) * nat (num_cols m) \<le> n"
  shows "\<exists>found m'. solve n m = Some (Inr (found, m')) \<and>
           table_rel marked_cell m m' \<and>
           frames m' - frames m = card (visited_set m') \<and>
           frames m' - frames m \<le> nat (num_rows m) * nat (num_cols m)"
proof -
  note ok = assms(1)
  have v0: "visited_set m = {}" using ok assms(4) by (rule no_visited_flags)
  have g: "in_grid m 0 0" using assms(2,3) by (simp add: in_grid_def)
  have u0: "(0, 0) \<in> unvisited m"
    using g v0 by (auto simp add: unvisited_def visited_set_def)
  have cu: "card (unvisited m) = nat (num_rows m) * nat (num_cols m)"
    using card_visited_unvisited [of m] v0 by simp
  then have "card (unvisited m) \<le> n" using assms(5) by simp
  from solve_r_returns [OF ok g u0 this]
  obtain found m' where run: "solve_r n m 0 0 = Some (Inr (found, m'))"
    and cnt: "frames m' + card (unvisited m') = frames m + card (unvisited m)"
    by blast
  have rel: "table_rel marked_cell m m'" using run by (rule solve_r_rel)
  from rel have dims: "num_rows m' = num_rows m" "num_cols m' = num_cols m"
    by (simp_all add: table_rel_def same_shape_def)
  have "card (visited_set m') + card (unvisited m') = nat (num_rows m) * nat (num_cols m)"
    using card_visited_unvisited [of m'] dims by simp
  with cnt cu have calls: "frames m' = frames m + card (visited_set m')" by simp
  have "card (visited_set m') \<le> nat (num_rows m) * nat (num_cols m)"
    using card_visited_unvisited [of m'] dims by simp
  with calls run rel show ?thesis by (simp add: solve_def)
qed

theorem solver_terminates_witness:
  "grid_ok dead_end \<and> 1 \<le> num_rows dead_end \<and> 1 \<le> num_cols dead_end \<and>
   nat (num_rows dead_end) * nat (num_cols dead_end) \<le> 3 \<and>
   (\<exists>found m'. solve 3 dead_end = Some (Inr (found, m')) \<and>
           table_rel marked_cell dead_end m' \<and>
           frames m' - frames dead_end = card (visited_set m') \<and>
           frames m' - frames dead_end \<le> nat (num_rows dead_end) * nat (num_cols dead_end))"
proof -
  have a: "grid_ok dead_end" by (simp add: grid_ok_def dead_end_def maze_init_def)
  have b: "1 \<le> num_rows dead_end" "1 \<le> num_cols dead_end"
    by (simp_all add: dead_end_def maze_init_def)
  have c: "\<forall>row\<in>set (cells dead_end). \<forall>c\<in>set row. \<not> visited c"
    by (simp add: dead_end_def new_cell_def)
  have d: "nat (num_rows dead_end) * nat (num_cols dead_end) \<le> 3"
    by (simp add: dead_end_def maze_init_def)
  from solver_terminates [OF a b c d] a b d show ?thesis by blast
qed

lemma list_all2_map_eq:
  assumes "list_all2 R xs ys" and "\<And>a b. R a b \<Longrightarrow> f a = f b"
  shows "map f xs = map f ys"
  using assms(1)
proof (induction rule: list_all2_induct)
  case Nil
  show ?case by simp
next
  case (Cons x xs y ys)
  then show ?case using assms(2) [of x y] by simp
qed

lemma marked_rel_wall_table:
  assumes "table_rel marked_cell m m'"
  shows "wall_table m' = wall_table m"
proof -
  have cellw: "walls a = walls b" if "marked_cell a b" for a b
    using that unfolding marked_cell_def by (elim disjE) (simp_all add: walls_def)
  have row: "map walls xs = map walls ys" if "list_all2 marked_cell xs ys" for xs ys
    using that cellw by (rule list_all2_map_eq)
  from assms have "list_all2 (list_all2 marked_cell) (cells m) (cells m')"
    by (simp add: table_rel_def)
  then have "map (map walls) (cells m) = map (map walls) (cells m')"
    using row by (rule list_all2_map_eq)
  then show ?thesis by (simp add: wall_table_def)
qed

text \<open>
  C9. Whatever the state and the starting cell, a run of \<open>solve_r\<close> that returns leaves
  every cell as it was or with only its visited flag set (\<open>marked_cell\<close>), so that the
  table of wall flags is the same before and after. A run of \<open>_break_walls_r\<close> that
  returns leaves every cell with its geometry, with no wall flag that went from false to
  true and no visited flag that went from true to false (\<open>carved_cell\<close>). In both cases
  the table keeps its shape and the maze its dimensions.
\<close>

theorem mutation_discipline:
  "(solve_r n m i j = Some (Inr (found, m')) \<longrightarrow>
      table_rel marked_cell m m' \<and> wall_table m' = wall_table m) \<and>
   (break_walls_r k m i j = Some (Inr m'') \<longrightarrow> table_rel carved_cell m m'')"
  using solve_r_rel [of n m i j found m'] break_walls_rel [of k m i j m'']
    marked_rel_wall_table [of m m']
  by blast

theorem mutation_discipline_witness:
  "(\<exists>m'. solve_r 3 dead_end 0 0 = Some (Inr (False, m')) \<and>
      table_rel marked_cell dead_end m' \<and> wall_table m' = wall_table dead_end) \<and>
   (\<exists>m''. break_walls_r 10 (with_openings (maze_init 0 0 2 2 10 10 [] None always_first)) 0 0 =
        Some (Inr m'') \<and>
      table_rel carved_cell (with_openings (maze_init 0 0 2 2 10 10 [] None always_first)) m'')"
proof -
  obtain m' where s: "solve_r 3 dead_end 0 0 = Some (Inr (False, m'))"
    using dead_end_solve unfolding solve_def
    by (cases "solve_r 3 dead_end 0 0") (auto simp add: map_sum_def split: sum.splits)
  let ?m = "maze_init 0 0 2 2 10 10 [] None always_first"
  have "\<exists>m2. break_walls_r 10 (with_openings ?m) 0 0 = Some (Inr m2) \<and>
      create_cells 10 ?m = Some (Inr (all_unvisited m2))"
    by (rule generation_returns) (simp_all add: maze_init_def)
  then obtain m2 where g: "break_walls_r 10 (with_openings ?m) 0 0 = Some (Inr m2)" by blast
  from mutation_discipline [of 3 dead_end 0 0 False m' 10 m2] s
  have a: "table_rel marked_cell dead_end m' \<and> wall_table m' = wall_table dead_end" by blast
  from mutation_discipline [of _ "with_openings ?m" 0 0 _ _ 10 m2] g
  have b: "table_rel carved_cell (with_openings ?m) m2" by blast
  from s g a b show ?thesis by blast
qed

lemma set_all_positions: "(a, b) \<in> set (all_positions m) \<longleftrightarrow> in_grid m a b"
proof -
  have "(a, b) \<in> set (all_positions m) \<longleftrightarrow>
      a \<in> set (py_range (num_rows m)) \<and> b \<in> set (py_range (num_cols m))"
    by (auto simp add: all_positions_def)
  then show ?thesis by (simp add: in_py_range in_grid_def)
qed

lemma mirrored_iff:
  "mirrored m \<longleftrightarrow>
     (\<forall>a b. in_grid m a b \<longrightarrow>
        (in_grid m a (b + 1) \<longrightarrow>
           has_right_wall (cell_at m a b) = has_left_wall (cell_at m a (b + 1))) \<and>
        (in_grid m (a + 1) b \<longrightarrow>
           has_bottom_wall (cell_at m a b) = has_top_wall (cell_at m (a + 1) b)))"
  unfolding mirrored_def using set_all_positions by blast

lemma break_walls_invariant:
  fixes I :: "maze \<Rightarrow> bool"
  assumes mark: "\<And>m i j. grid_ok m \<Longrightarrow> in_grid m i j \<Longrightarrow> I m \<Longrightarrow> I (mark m i j)"
    and carve: "\<And>m i j ni nj. grid_ok m \<Longrightarrow> in_grid m i j \<Longrightarrow> I m \<Longrightarrow>
        (ni, nj) \<in> set (to_visit m i j) \<Longrightarrow> I (carve m i j ni nj)"
    and drawn: "\<And>m i j. I m \<Longrightarrow> I (drawn m i j)"
    and ok: "grid_ok m" and c: "in_grid m i j" and inv: "I m"
  shows "(break_walls_r n m i j = Some (Inr m') \<longrightarrow> I m') \<and>
         (break_walls_loop n m i j = Some (Inr m') \<longrightarrow> I m')"
proof -
  have "(grid_ok m \<longrightarrow> in_grid m i j \<longrightarrow> I m \<longrightarrow>
            break_walls_r n m i j = Some (Inr m') \<longrightarrow> I m') \<and>
         (grid_ok m \<longrightarrow> in_grid m i j \<longrightarrow> I m \<longrightarrow>
            break_walls_loop n m i j = Some (Inr m') \<longrightarrow> I m')"
    by (rule break_walls_induct [where P = "\<lambda>m i j. I m" and L = "\<lambda>m i j. I m"
          and A = "\<lambda>m i j m'. I m'" and B = "\<lambda>m i j m'. I m'"])
      (simp_all add: mark carve drawn)
  with ok c inv show ?thesis by blast
qed

lemma joins_sym: "joins i j ni nj p q = joins i j ni nj q p"
  by (auto simp add: joins_def)

lemma mirrored_mark:
  assumes ok: "grid_ok m" and c: "in_grid m i j" and mir: "mirrored m"
  shows "mirrored (mark m i j)"
proof -
  have w: "has_right_wall (cell_at (mark m i j) a b) = has_right_wall (cell_at m a b)"
    "has_left_wall (cell_at (mark m i j) a b) = has_left_wall (cell_at m a b)"
    "has_top_wall (cell_at (mark m i j) a b) = has_top_wall (cell_at m a b)"
    "has_bottom_wall (cell_at (mark m i j) a b) = has_bottom_wall (cell_at m a b)"
    if "in_grid m a b" for a b
    using cell_at_mark [OF ok c that] by (cases "a = i \<and> b = j"; simp)+
  show ?thesis
    using mir unfolding mirrored_iff by (simp add: w)
qed

lemma mirrored_carve:
  assumes ok: "grid_ok m" and c: "in_grid m i j" and mir: "mirrored m"
    and tv: "(ni, nj) \<in> set (to_visit m i j)"
  shows "mirrored (carve m i j ni nj)"
proof -
  from tv have nb: "(ni, nj) \<in> set (neighbors i j)" and n: "in_grid m ni nj"
    by (simp_all add: to_visit_member)
  note fl = opened_flags [OF ok c n nb]
  have "has_right_wall (cell_at (opened m i j ni nj) a b) =
        has_left_wall (cell_at (opened m i j ni nj) a (b + 1))"
    if g: "in_grid m a b" "in_grid m a (b + 1)" for a b
  proof -
    have "has_right_wall (cell_at m a b) = has_left_wall (cell_at m a (b + 1))"
      using mir g unfolding mirrored_iff by blast
    then show ?thesis
      using fl(1) [OF g(1)] fl(2) [OF g(2)] joins_sym [of i j ni nj "(a, b)" "(a, b + 1)"]
      by simp
  qed
  moreover have "has_bottom_wall (cell_at (opened m i j ni nj) a b) =
        has_top_wall (cell_at (opened m i j ni nj) (a + 1) b)"
    if g: "in_grid m a b" "in_grid m (a + 1) b" for a b
  proof -
    have "has_bottom_wall (cell_at m a b) = has_top_wall (cell_at m (a + 1) b)"
      using mir g unfolding mirrored_iff by blast
    then show ?thesis
      using fl(3) [OF g(1)] fl(4) [OF g(2)] joins_sym [of i j ni nj "(a, b)" "(a + 1, b)"]
      by simp
  qed
  ultimately show ?thesis unfolding mirrored_iff by simp
qed

lemma mirrored_drawn: "mirrored m \<Longrightarrow> mirrored (drawn m i j)"
  unfolding mirrored_iff by simp

lemma break_walls_mirrored:
  assumes "grid_ok m" and "in_grid m i j" and "mirrored m"
  shows "(break_walls_r n m i j = Some (Inr m') \<longrightarrow> mirrored m') \<and>
         (break_walls_loop n m i j = Some (Inr m') \<longrightarrow> mirrored m')"
  using assms
  by (rule break_walls_invariant [where I = mirrored, rotated 3])
    (simp_all add: mirrored_mark mirrored_carve mirrored_drawn)

lemma mirrored_fresh: "mirrored (fresh_table m)"
  unfolding mirrored_iff by (simp add: cell_at_fresh new_cell_def)

lemma with_openings_flags:
  assumes r: "1 \<le> num_rows m" and c: "1 \<le> num_cols m" and g: "in_grid m a b"
  shows "has_left_wall (cell_at (with_openings m) a b)"
    and "has_right_wall (cell_at (with_openings m) a b)"
    and "has_top_wall (cell_at (with_openings m) a b) \<longleftrightarrow> \<not> (a = 0 \<and> b = 0)"
    and "has_bottom_wall (cell_at (with_openings m) a b) \<longleftrightarrow>
           \<not> (a = num_rows m - 1 \<and> b = num_cols m - 1)"
    and "\<not> visited (cell_at (with_openings m) a b)"
proof -
  note f = cell_at_fresh [OF g]
  note eq = cell_at_with_openings [OF r c g, unfolded f]
  show "has_left_wall (cell_at (with_openings m) a b)"
    unfolding eq by (cases "a = num_rows m - 1 \<and> b = num_cols m - 1"; cases "a = 0 \<and> b = 0")
      (simp_all add: new_cell_def)
  show "has_right_wall (cell_at (with_openings m) a b)"
    unfolding eq by (cases "a = num_rows m - 1 \<and> b = num_cols m - 1"; cases "a = 0 \<and> b = 0")
      (simp_all add: new_cell_def)
  show "has_top_wall (cell_at (with_openings m) a b) \<longleftrightarrow> \<not> (a = 0 \<and> b = 0)"
    unfolding eq by (cases "a = num_rows m - 1 \<and> b = num_cols m - 1"; cases "a = 0 \<and> b = 0")
      (simp_all add: new_cell_def)
  show "has_bottom_wall (cell_at (with_openings m) a b) \<longleftrightarrow>
           \<not> (a = num_rows m - 1 \<and> b = num_cols m - 1)"
    unfolding eq by (cases "a = num_rows m - 1 \<and> b = num_cols m - 1"; cases "a = 0 \<and> b = 0")
      (simp_all add: new_cell_def)
  show "\<not> visited (cell_at (with_openings m) a b)"
    unfolding eq by (cases "a = num_rows m - 1 \<and> b = num_cols m - 1"; cases "a = 0 \<and> b = 0")
      (simp_all add: new_cell_def)
qed

lemma mirrored_with_openings:
  assumes r: "1 \<le> num_rows m" and c: "1 \<le> num_cols m"
  shows "mirrored (with_openings m)"
proof -
  note fl = with_openings_flags [OF r c]
  have bottom: "has_bottom_wall (cell_at (with_openings m) a b)"
    if "in_grid m a b" "in_grid m (a + 1) b" for a b
    using fl(4) [OF that(1)] that by (simp add: in_grid_def)
  have top: "has_top_wall (cell_at (with_openings m) (a + 1) b)"
    if "in_grid m a b" "in_grid m (a + 1) b" for a b
    using fl(3) [OF that(2)] that by (simp add: in_grid_def)
  show ?thesis unfolding mirrored_iff using fl(1,2) bottom top by simp
qed

lemma mirrored_marked_rel:
  assumes rel: "table_rel marked_cell m m'" and ok: "grid_ok m" and mir: "mirrored m"
  shows "mirrored m'"
proof -
  have g: "in_grid m' = in_grid m" using rel ok by (rule table_rel_ok(2))
  have w: "has_right_wall (cell_at m' a b) = has_right_wall (cell_at m a b)"
    "has_left_wall (cell_at m' a b) = has_left_wall (cell_at m a b)"
    "has_top_wall (cell_at m' a b) = has_top_wall (cell_at m a b)"
    "has_bottom_wall (cell_at m' a b) = has_bottom_wall (cell_at m a b)"
    if "in_grid m a b" for a b
    using table_rel_ok(3) [OF rel ok that] unfolding marked_cell_def by (elim disjE; simp)+
  show ?thesis using mir unfolding mirrored_iff g by (simp add: w)
qed

lemma mirrored_all_unvisited:
  assumes ok: "grid_ok m" and mir: "mirrored m"
  shows "mirrored (all_unvisited m)"
  using mir unfolding mirrored_iff by (simp add: cell_at_all_unvisited [OF ok])

text \<open>
  C5. On a grid with at least one row and one column, the walls are mirrored after the
  table is built and the entrance and exit are opened; from any well-formed mirrored state
  and any cell of the grid, marking the cell, breaking the walls towards any candidate
  of \<open>to_visit\<close>, and any returning run of \<open>_break_walls_r\<close> or of its loop lead to
  mirrored states again, so the property holds at every iteration of every call. With
  enough fuel the constructor returns, its maze is mirrored, and every returning run of
  the solver on it leaves it mirrored. (The two assignments of one wall-breaking branch
  are taken as one step.)
\<close>

theorem walls_mirrored:
  assumes "1 \<le> num_rows m" and "1 \<le> num_cols m"
    and "2 * (nat (num_rows m) * nat (num_cols m)) + 2 \<le> n"
  shows "(\<exists>m1. break_entrance_and_exit (m\<lparr>cells := build_cells m\<rparr>) = Inr m1 \<and> mirrored m1) \<and>
         (\<forall>ma i j. grid_ok ma \<longrightarrow> in_grid ma i j \<longrightarrow> mirrored ma \<longrightarrow>
            (\<forall>mb. update_cell ma i j (\<lambda>c. c\<lparr>visited := True\<rparr>) = Inr mb \<longrightarrow> mirrored mb) \<and>
            (\<forall>tv ni nj mb. collect_to_visit ma (neighbors i j) = Inr tv \<longrightarrow> (ni, nj) \<in> set tv \<longrightarrow>
               break_between ma i j ni nj = Inr mb \<longrightarrow> mirrored mb) \<and>
            (\<forall>k mb. break_walls_r k ma i j = Some (Inr mb) \<longrightarrow> mirrored mb) \<and>
            (\<forall>k mb. break_walls_loop k ma i j = Some (Inr mb) \<longrightarrow> mirrored mb)) \<and>
         (\<exists>mf. create_cells n m = Some (Inr mf) \<and> mirrored mf \<and>
            (\<forall>k found ms. solve k mf = Some (Inr (found, ms)) \<longrightarrow> mirrored ms))"
proof (intro conjI allI impI)
  show "\<exists>m1. break_entrance_and_exit (m\<lparr>cells := build_cells m\<rparr>) = Inr m1 \<and> mirrored m1"
    using break_entrance_and_exit_ok [OF assms(1,2)] mirrored_with_openings [OF assms(1,2)]
    by (simp add: fresh_table_def)
next
  fix ma i j mb
  assume ok: "grid_ok ma" and c: "in_grid ma i j" and mir: "mirrored ma"
    and u: "update_cell ma i j (\<lambda>c. c\<lparr>visited := True\<rparr>) = Inr mb"
  from u update_cell_ok [OF ok c, of "\<lambda>c. c\<lparr>visited := True\<rparr>"] have "mb = mark ma i j"
    by (simp add: mark_def)
  then show "mirrored mb" using mirrored_mark [OF ok c mir] by simp
next
  fix ma i j tv ni nj mb
  assume ok: "grid_ok ma" and c: "in_grid ma i j" and mir: "mirrored ma"
    and tv: "collect_to_visit ma (neighbors i j) = Inr tv" and mem: "(ni, nj) \<in> set tv"
    and bb: "break_between ma i j ni nj = Inr mb"
  from tv to_visit_ok [OF ok, of i j] have tv': "tv = to_visit ma i j" by simp
  with mem have mem': "(ni, nj) \<in> set (to_visit ma i j)" by simp
  then have n: "in_grid ma ni nj" by (simp add: to_visit_member)
  from bb break_between_ok [OF ok c n] have "mb = opened ma i j ni nj" by simp
  moreover have "mirrored (opened ma i j ni nj) = mirrored (carve ma i j ni nj)"
    unfolding mirrored_iff by simp
  ultimately show "mirrored mb" using mirrored_carve [OF ok c mir mem'] by simp
next
  fix ma i j k mb
  assume "grid_ok ma" "in_grid ma i j" "mirrored ma" "break_walls_r k ma i j = Some (Inr mb)"
  then show "mirrored mb" using break_walls_mirrored by blast
next
  fix ma i j k mb
  assume "grid_ok ma" "in_grid ma i j" "mirrored ma" "break_walls_loop k ma i j = Some (Inr mb)"
  then show "mirrored mb" using break_walls_mirrored by blast
next
  from generation_returns [OF assms]
  obtain m2 where g: "break_walls_r n (with_openings m) 0 0 = Some (Inr m2)"
    and cc: "create_cells n m = Some (Inr (all_unvisited m2))"
    by blast
  have c0: "in_grid (with_openings m) 0 0" using assms(1,2) by (simp add: in_grid_def)
  have mir2: "mirrored m2"
    using break_walls_mirrored [OF grid_ok_with_openings c0 mirrored_with_openings [OF assms(1,2)]] g
    by blast
  have "table_rel carved_cell (with_openings m) m2"
    using break_walls_rel [of n "with_openings m" 0 0 m2] g by blast
  then have ok2: "grid_ok m2" using grid_ok_with_openings by (rule table_rel_ok(1))
  have mirf: "mirrored (all_unvisited m2)" using ok2 mir2 by (rule mirrored_all_unvisited)
  have okf: "grid_ok (all_unvisited m2)" using ok2 by (rule grid_ok_all_unvisited)
  have "mirrored ms" if "solve k (all_unvisited m2) = Some (Inr (found, ms))" for k found ms
  proof -
    from that have "table_rel marked_cell (all_unvisited m2) ms"
      unfolding solve_def by (rule solve_r_rel)
    then show ?thesis using okf mirf by (rule mirrored_marked_rel)
  qed
  with cc mirf show "\<exists>mf. create_cells n m = Some (Inr mf) \<and> mirrored mf \<and>
            (\<forall>k found ms. solve k mf = Some (Inr (found, ms)) \<longrightarrow> mirrored ms)"
    by blast
qed

theorem walls_mirrored_witness:
  "1 \<le> num_rows (maze_init 0 0 2 2 10 10 [] None always_first) \<and>
   1 \<le> num_cols (maze_init 0 0 2 2 10 10 [] None always_first) \<and>
   (\<exists>mf. create_cells 10 (maze_init 0 0 2 2 10 10 [] None always_first) = Some (Inr mf) \<and>
      mirrored mf) \<and>
   grid_ok (with_openings (maze_init 0 0 2 2 10 10 [] None always_first)) \<and>
   in_grid (with_openings (maze_init 0 0 2 2 10 10 [] None always_first)) 0 0 \<and>
   mirrored (with_openings (maze_init 0 0 2 2 10 10 [] None always_first)) \<and>
   (\<exists>mb. break_walls_r 10 (with_openings (maze_init 0 0 2 2 10 10 [] None always_first)) 0 0 =
        Some (Inr mb) \<and> mirrored mb)"
proof -
  let ?m = "maze_init 0 0 2 2 10 10 [] None always_first"
  have a: "1 \<le> num_rows ?m" "1 \<le> num_cols ?m"
    "2 * (nat (num_rows ?m) * nat (num_cols ?m)) + 2 \<le> 10"
    by (simp_all add: maze_init_def)
  note wm = walls_mirrored [OF a]
  have ok: "grid_ok (with_openings ?m)" by simp
  have c: "in_grid (with_openings ?m) 0 0" by (simp add: in_grid_def maze_init_def)
  have "break_entrance_and_exit (?m\<lparr>cells := build_cells ?m\<rparr>) = Inr (with_openings ?m)"
    using break_entrance_and_exit_ok [OF a(1,2)] by (simp add: fresh_table_def)
  with wm have mir: "mirrored (with_openings ?m)" by auto
  from generation_returns [OF a]
  obtain m2 where g: "break_walls_r 10 (with_openings ?m) 0 0 = Some (Inr m2)" by blast
  from wm ok c mir g have "mirrored m2" by blast
  with wm a ok c mir g show ?thesis by blast
qed

end
